theory Spec2Isabelle
  imports Main "HOL-Library.Word" "HOL-Library.Log_Nat"
begin

section \<open>JavaScript values\<close>

text \<open>
  A JavaScript string is a sequence of UTF-16 code units. String literals of the source
  are written \<open>lit ''...''\<close>.
\<close>

type_synonym jsstring = "16 word list"

definition lit :: "string \<Rightarrow> jsstring" where
  "lit s = map of_char s"

text \<open>
  A JavaScript number is an IEEE 754 double. \<open>Num q\<close> is the finite double whose value is
  the rational \<open>q\<close>; the two zeros are identified (the programs below never divide by a
  negative zero).
\<close>

datatype number = Num rat | PosInf | NegInf | NaN

text \<open>
  The values \<open>JSON.parse\<close> returns and \<open>JSON.stringify\<close> accepts. An object is the list
  of its own properties in property order; reading a property takes the first entry
  with that key.
\<close>

datatype json =
    JNull
  | JBool bool
  | JNum number
  | JStr jsstring
  | JArr "json list"
  | JObj "(jsstring \<times> json) list"

text \<open>
  A string held in local storage is identified by what \<open>JSON.parse\<close> makes of it: the
  empty string (falsy, and not JSON), a non-empty string that is not JSON, or a JSON
  text denoting a value.
\<close>

datatype json_text = EmptyText | Invalid | Json json

datatype exn = Error jsstring | SyntaxError | TypeError

definition JSON_parse :: "json_text \<Rightarrow> exn + json" where
  "JSON_parse t = (case t of Json v \<Rightarrow> Inr v | _ \<Rightarrow> Inl SyntaxError)"

text \<open>\<open>JSON.stringify\<close> writes a number that is not finite as \<open>null\<close>.\<close>

fun serialised :: "json \<Rightarrow> json" where
  "serialised (JNum (Num q)) = JNum (Num q)"
| "serialised (JNum _) = JNull"
| "serialised (JArr vs) = JArr (map serialised vs)"
| "serialised (JObj kvs) = JObj (map (\<lambda>(k, v). (k, serialised v)) kvs)"
| "serialised v = v"

definition JSON_stringify :: "json \<Rightarrow> json_text" where
  "JSON_stringify v = Json (serialised v)"

text \<open>
  \<open>getItem\<close> returns \<open>null\<close> or a string; \<open>null\<close> and the empty string are falsy. A
  truthy result is handed on as the string it is.
\<close>

definition truthy :: "json_text option \<Rightarrow> json_text option" where
  "truthy r = (case r of None \<Rightarrow> None | Some EmptyText \<Rightarrow> None | Some t \<Rightarrow> Some t)"

text \<open>\<open>s.substr(start, n)\<close> for non-negative arguments.\<close>

definition substr :: "jsstring \<Rightarrow> nat \<Rightarrow> nat \<Rightarrow> jsstring" where
  "substr s start n = take n (drop start s)"


section \<open>Numbers\<close>

text \<open>
  Rounding a rational to the nearest double, ties to the even significand. For
  \<open>x > 0\<close>, \<open>ilog2 x\<close> is the exponent \<open>e\<close> with \<open>2\<^sup>e \<le> x < 2\<^sup>e\<^sup>+\<^sup>1\<close>; doubles with that
  exponent are the multiples of \<open>2\<^sup>e\<^sup>-\<^sup>5\<^sup>2\<close>, and below \<open>2\<^sup>-\<^sup>1\<^sup>0\<^sup>2\<^sup>2\<close> (the subnormal range)
  the multiples of \<open>2\<^sup>-\<^sup>1\<^sup>0\<^sup>7\<^sup>4\<close>. A result whose exponent exceeds 1023 is \<open>Infinity\<close>.
\<close>

definition ilog2 :: "rat \<Rightarrow> int" where
  "ilog2 x = (let (n, d) = quotient_of x; e = bitlen n - bitlen d
              in if 2 powi e \<le> x then e else e - 1)"

definition round_half_even :: "rat \<Rightarrow> int" where
  "round_half_even y =
     (let f = \<lfloor>y\<rfloor>; r = y - of_int f
      in if r < 1 / 2 then f else if 1 / 2 < r then f + 1 else if even f then f else f + 1)"

definition pos_double :: "rat \<Rightarrow> number" where
  "pos_double x =
     (let e = max (ilog2 x) (- 1022);
          u = 2 powi (e - 52);
          r = of_int (round_half_even (x / u)) * u
      in if 1024 \<le> ilog2 r then PosInf else Num r)"

fun js_neg :: "number \<Rightarrow> number" where
  "js_neg (Num q) = Num (- q)"
| "js_neg PosInf = NegInf"
| "js_neg NegInf = PosInf"
| "js_neg NaN = NaN"

definition to_double :: "rat \<Rightarrow> number" where
  "to_double x =
     (if x = 0 then Num 0 else if 0 < x then pos_double x else js_neg (pos_double (- x)))"

text \<open>The operators \<open>+\<close>, \<open>*\<close> and \<open>/\<close> on numbers.\<close>

fun js_add :: "number \<Rightarrow> number \<Rightarrow> number" where
  "js_add NaN b = NaN"
| "js_add a NaN = NaN"
| "js_add (Num a) (Num b) = to_double (a + b)"
| "js_add PosInf NegInf = NaN"
| "js_add NegInf PosInf = NaN"
| "js_add PosInf b = PosInf"
| "js_add NegInf b = NegInf"
| "js_add (Num a) b = b"

fun js_mul :: "number \<Rightarrow> number \<Rightarrow> number" where
  "js_mul NaN b = NaN"
| "js_mul a NaN = NaN"
| "js_mul (Num a) (Num b) = to_double (a * b)"
| "js_mul (Num a) b = (if a = 0 then NaN else if 0 < a then b else js_neg b)"
| "js_mul a (Num b) = (if b = 0 then NaN else if 0 < b then a else js_neg a)"
| "js_mul PosInf b = b"
| "js_mul NegInf b = js_neg b"

fun js_div :: "number \<Rightarrow> number \<Rightarrow> number" where
  "js_div NaN b = NaN"
| "js_div a NaN = NaN"
| "js_div (Num a) (Num b) =
     (if b = 0 then (if a = 0 then NaN else if 0 < a then PosInf else NegInf)
      else to_double (a / b))"
| "js_div (Num a) b = Num 0"
| "js_div a (Num b) = (if 0 \<le> b then a else js_neg a)"
| "js_div a b = NaN"

text \<open>The comparisons; every comparison with \<open>NaN\<close> is false.\<close>

fun js_lt :: "number \<Rightarrow> number \<Rightarrow> bool" where
  "js_lt NaN b = False"
| "js_lt a NaN = False"
| "js_lt (Num a) (Num b) = (a < b)"
| "js_lt a NegInf = False"
| "js_lt PosInf b = False"
| "js_lt a b = True"

definition js_gt :: "number \<Rightarrow> number \<Rightarrow> bool" where
  "js_gt a b = js_lt b a"

definition js_ge :: "number \<Rightarrow> number \<Rightarrow> bool" where
  "js_ge a b = (a \<noteq> NaN \<and> b \<noteq> NaN \<and> \<not> js_lt a b)"

definition isNaN :: "number \<Rightarrow> bool" where
  "isNaN a = (a = NaN)"

text \<open>
  \<open>Math.floor\<close>, and \<open>Math.round\<close>, which rounds a half towards \<open>+\<infinity>\<close>. Both are exact: the
  result is a double whenever the argument is.
\<close>

fun Math_floor :: "number \<Rightarrow> number" where
  "Math_floor (Num a) = Num (of_int \<lfloor>a\<rfloor>)"
| "Math_floor a = a"

fun Math_round :: "number \<Rightarrow> number" where
  "Math_round (Num a) = Num (of_int \<lfloor>a + 1 / 2\<rfloor>)"
| "Math_round a = a"


section \<open>Characters and strings\<close>

text \<open>
  The classes of the regular expressions of the source, none of which has the \<open>u\<close> or
  the \<open>s\<close> flag: \<open>.\<close> is every code unit but a line terminator, \<open>\s\<close> is white space or a
  line terminator, \<open>\d\<close> is an ASCII digit. \<open>String.prototype.trim\<close> strips the code units
  of \<open>\s\<close>.
\<close>

definition is_line_terminator :: "16 word \<Rightarrow> bool" where
  "is_line_terminator c = (c = 0x0A \<or> c = 0x0D \<or> c = 0x2028 \<or> c = 0x2029)"

definition is_space :: "16 word \<Rightarrow> bool" where
  "is_space c =
     (c = 0x09 \<or> c = 0x0B \<or> c = 0x0C \<or> c = 0x20 \<or> c = 0xA0 \<or> c = 0x1680 \<or>
      (0x2000 \<le> c \<and> c \<le> 0x200A) \<or> c = 0x202F \<or> c = 0x205F \<or> c = 0x3000 \<or> c = 0xFEFF \<or>
      is_line_terminator c)"

definition is_digit :: "16 word \<Rightarrow> bool" where
  "is_digit c = (0x30 \<le> c \<and> c \<le> 0x39)"

definition trim :: "jsstring \<Rightarrow> jsstring" where
  "trim s = rev (dropWhile is_space (rev (dropWhile is_space s)))"

text \<open>\<open>s.split('\n')\<close>: the pieces between the line feeds; there is always at least one.\<close>

fun split_lines :: "jsstring \<Rightarrow> jsstring list" where
  "split_lines [] = [[]]"
| "split_lines (c # cs) =
     (if c = 0x0A then [] # split_lines cs
      else (case split_lines cs of [] \<Rightarrow> [[c]] | l # ls \<Rightarrow> (c # l) # ls))"

text \<open>The integer a string of decimal digits denotes.\<close>

definition digits_value :: "jsstring \<Rightarrow> int" where
  "digits_value ds = foldl (\<lambda>v c. 10 * v + (uint c - 48)) 0 ds"

text \<open>
  \<open>parseInt(s, 10)\<close>: white space is skipped, then a sign and the longest run of digits
  are read; without a digit the result is \<open>NaN\<close>. The number is the double nearest to
  the integer read. (For an integer of more than 20 significant digits ECMAScript lets
  an implementation round an approximation of it; the engines in use round the integer
  itself.)
\<close>

definition parseInt :: "jsstring \<Rightarrow> number" where
  "parseInt s =
     (let s1 = dropWhile is_space s;
          negative = (take 1 s1 = lit ''-'');
          s2 = (if take 1 s1 = lit ''-'' \<or> take 1 s1 = lit ''+'' then drop 1 s1 else s1);
          ds = takeWhile is_digit s2
      in if ds = [] then NaN
         else if negative then js_neg (to_double (of_int (digits_value ds)))
         else to_double (of_int (digits_value ds)))"

text \<open>
  The decimal digits of an integer that is not negative, and the string of an integer
  (\<open>Date.now()\<close> is one, and far below the \<open>10\<^sup>2\<^sup>1\<close> from which a number is printed with an
  exponent).
\<close>

function decimal :: "int \<Rightarrow> jsstring" where
  "decimal n = (if n < 10 then [of_int (48 + n)] else decimal (n div 10) @ [of_int (48 + n mod 10)])"
  by pat_completeness auto
termination
  by (relation "measure nat") auto

definition int_to_string :: "int \<Rightarrow> jsstring" where
  "int_to_string i = (if i < 0 then lit ''-'' @ decimal (- i) else decimal i)"


section \<open>The authentication context\<close>

subsection \<open>Local storage\<close>

text \<open>
  The browser's \<open>localStorage\<close>: its items, and the calls made on it so far, in order.
\<close>

datatype access = GetItem jsstring | SetItem jsstring | RemoveItem jsstring

fun key_of :: "access \<Rightarrow> jsstring" where
  "key_of (GetItem k) = k"
| "key_of (SetItem k) = k"
| "key_of (RemoveItem k) = k"

record localStorage =
  items :: "jsstring \<rightharpoonup> json_text"
  accesses :: "access list"

definition getItem :: "jsstring \<Rightarrow> localStorage \<Rightarrow> json_text option \<times> localStorage" where
  "getItem k ls = (items ls k, ls\<lparr>accesses := accesses ls @ [GetItem k]\<rparr>)"

definition setItem :: "jsstring \<Rightarrow> json_text \<Rightarrow> localStorage \<Rightarrow> localStorage" where
  "setItem k v ls = ls\<lparr>items := (items ls)(k \<mapsto> v), accesses := accesses ls @ [SetItem k]\<rparr>"

definition removeItem :: "jsstring \<Rightarrow> localStorage \<Rightarrow> localStorage" where
  "removeItem k ls = ls\<lparr>items := (items ls)(k := None), accesses := accesses ls @ [RemoveItem k]\<rparr>"

subsection \<open>AuthProvider\<close>

text \<open>
  The provider's React state (\<open>user\<close>, with \<open>JNull\<close> for \<open>null\<close>, and \<open>loading\<close>) together
  with the local storage it works on. Every operation returns the state it leaves and
  the exception it throws, if any (for the asynchronous ones: the rejection of the
  promise).
\<close>

record auth =
  user :: json
  loading :: bool
  storage :: localStorage

definition USERS_STORAGE_KEY :: jsstring where
  "USERS_STORAGE_KEY = lit ''fairgrade_users''"

definition setUser :: "json \<Rightarrow> auth \<Rightarrow> auth" where
  "setUser v st = st\<lparr>user := v\<rparr>"

definition setLoading :: "bool \<Rightarrow> auth \<Rightarrow> auth" where
  "setLoading b st = st\<lparr>loading := b\<rparr>"

text \<open>The effect run once when the provider mounts.\<close>

definition initial_load :: "auth \<Rightarrow> exn option \<times> auth" where
  "initial_load st =
     (let (storedUser, ls) = getItem (lit ''current_user'') (storage st);
          st1 = st\<lparr>storage := ls\<rparr>
      in case truthy storedUser of
           Some t \<Rightarrow>
             (case JSON_parse t of
                Inl e \<Rightarrow> (Some e, st1)
              | Inr v \<Rightarrow> (None, setLoading False (setUser v st1)))
         | None \<Rightarrow> (None, setLoading False st1))"

definition getStoredUsers :: "localStorage \<Rightarrow> (exn + json) \<times> localStorage" where
  "getStoredUsers ls =
     (let (users, ls1) = getItem USERS_STORAGE_KEY ls
      in (case truthy users of Some t \<Rightarrow> JSON_parse t | None \<Rightarrow> Inr (JArr []), ls1))"

definition saveUsers :: "json \<Rightarrow> localStorage \<Rightarrow> localStorage" where
  "saveUsers users ls = setItem USERS_STORAGE_KEY (JSON_stringify users) ls"

definition login :: "jsstring \<Rightarrow> jsstring \<Rightarrow> auth \<Rightarrow> exn option \<times> auth" where
  "login email password st =
     (let st1 = setLoading True st;
          st2 = setUser (JObj [(lit ''email'', JStr email)]) st1
      in (None, setLoading False st2))"

text \<open>
  \<open>u.email === email\<close> for an element \<open>u\<close> of the parsed array: reading a property of
  \<open>null\<close> throws, reading one of any other value that has no such property gives
  \<open>undefined\<close>.
\<close>

fun email_is :: "jsstring \<Rightarrow> json \<Rightarrow> exn + bool" where
  "email_is email JNull = Inl TypeError"
| "email_is email (JObj kvs) = Inr (map_of kvs (lit ''email'') = Some (JStr email))"
| "email_is email v = Inr False"

text \<open>\<open>xs.some(f)\<close> on the elements of an array, from the left, stopping at the first hit.\<close>

fun some_elem :: "(json \<Rightarrow> exn + bool) \<Rightarrow> json list \<Rightarrow> exn + bool" where
  "some_elem f [] = Inr False"
| "some_elem f (x # xs) =
     (case f x of Inl e \<Rightarrow> Inl e | Inr True \<Rightarrow> Inr True | Inr False \<Rightarrow> some_elem f xs)"

text \<open>\<open>users.some(u => u.email === email)\<close>: only an array has the method.\<close>

definition email_exists :: "json \<Rightarrow> jsstring \<Rightarrow> exn + bool" where
  "email_exists users email =
     (case users of JArr xs \<Rightarrow> some_elem (email_is email) xs | _ \<Rightarrow> Inl TypeError)"

text \<open>
  \<open>[...users, newUser]\<close>. Spreading a value that is not iterable throws; \<open>users\<close> has
  passed \<open>email_exists\<close> by then, so it is an array.
\<close>

definition spread_append :: "json \<Rightarrow> json \<Rightarrow> exn + json" where
  "spread_append users v = (case users of JArr xs \<Rightarrow> Inr (JArr (xs @ [v])) | _ \<Rightarrow> Inl TypeError)"

text \<open>
  The body of the \<open>try\<close> block of \<open>register\<close>. \<open>random36\<close> is the string
  \<open>Math.random().toString(36)\<close> drawn for the new id.
\<close>

definition register_body ::
  "jsstring \<Rightarrow> jsstring \<Rightarrow> jsstring \<Rightarrow> jsstring \<Rightarrow> auth \<Rightarrow> exn option \<times> auth" where
  "register_body random36 name email password st =
     (let (users, ls1) = getStoredUsers (storage st);
          st1 = st\<lparr>storage := ls1\<rparr>
      in case users of
           Inl e \<Rightarrow> (Some e, st1)
         | Inr us \<Rightarrow>
            (case email_exists us email of
               Inl e \<Rightarrow> (Some e, st1)
             | Inr True \<Rightarrow> (Some (Error (lit ''Email already registered'')), st1)
             | Inr False \<Rightarrow>
                (let uid = lit ''user-'' @ substr random36 2 9;
                     newUser = JObj [(lit ''id'', JStr uid), (lit ''name'', JStr name),
                                     (lit ''email'', JStr email), (lit ''password'', JStr password)]
                 in case spread_append us newUser of
                      Inl e \<Rightarrow> (Some e, st1)
                    | Inr users' \<Rightarrow>
                       (let st2 = st1\<lparr>storage := saveUsers users' (storage st1)\<rparr>;
                            userData = JObj [(lit ''id'', JStr uid), (lit ''name'', JStr name),
                                             (lit ''email'', JStr email)];
                            st3 = setUser userData st2;
                            st4 = st3\<lparr>storage :=
                                    setItem (lit ''current_user'') (JSON_stringify userData)
                                      (storage st3)\<rparr>
                        in (None, st4)))))"

definition register ::
  "jsstring \<Rightarrow> jsstring \<Rightarrow> jsstring \<Rightarrow> jsstring \<Rightarrow> auth \<Rightarrow> exn option \<times> auth" where
  "register random36 name email password st =
     (let (thrown, st1) = register_body random36 name email password (setLoading True st)
      in (thrown, setLoading False st1))"

text \<open>
  The TypeScript type \<open>StoredUser\<close> (\<open>id\<close>, \<open>name\<close>, \<open>email\<close>, \<open>password\<close>) and the object
  that \<open>JSON.parse\<close> returns for a stored one.
\<close>

datatype StoredUser = StoredUser jsstring jsstring jsstring jsstring

fun stored_user_json :: "StoredUser \<Rightarrow> json" where
  "stored_user_json (StoredUser i n e p) =
     JObj [(lit ''id'', JStr i), (lit ''name'', JStr n), (lit ''email'', JStr e),
           (lit ''password'', JStr p)]"

definition logout :: "auth \<Rightarrow> exn option \<times> auth" where
  "logout st =
     (let st1 = setLoading True st;
          st2 = setUser JNull st1;
          st3 = st2\<lparr>storage := removeItem (lit ''current_user'') (storage st2)\<rparr>
      in (None, setLoading False st3))"


section \<open>Grading\<close>

subsection \<open>The rubric\<close>

record File =
  name :: jsstring
  mime_type :: jsstring

record Criterion =
  name :: jsstring
  weight :: number

text \<open>
  \<open>line.match(/(.*?)\s*\((\d+)%\)/)\<close>, from the inside out.

  \<open>percentage s\<close> matches \<open>\((\d+)%\)\<close> at the front of \<open>s\<close> and gives the digits. The
  \<open>\d+\<close> is greedy, and giving a digit back would leave it where \<open>%\<close> has to stand: only
  the longest run of digits can match.
\<close>

definition percentage :: "jsstring \<Rightarrow> jsstring option" where
  "percentage s =
     (case s of
        [] \<Rightarrow> None
      | c # r \<Rightarrow>
          if c = 0x28 \<and> takeWhile is_digit r \<noteq> [] \<and> take 2 (dropWhile is_digit r) = lit ''%)''
          then Some (takeWhile is_digit r) else None)"

text \<open>
  \<open>\s*\((\d+)%\)\<close> at the front of \<open>s\<close>: likewise the greedy \<open>\s*\<close> has to take every
  space there is, for \<open>\(\<close> to come next.
\<close>

definition spaces_percentage :: "jsstring \<Rightarrow> jsstring option" where
  "spaces_percentage s = percentage (dropWhile is_space s)"

text \<open>
  The whole expression from the front of \<open>s\<close>. The lazy \<open>(.*?)\<close> first tries to match
  nothing and takes one more code unit, which must not be a line terminator, each time
  the rest fails. \<open>taken\<close> is what it has so far. The result is the two groups.
\<close>

fun lazy_prefix :: "jsstring \<Rightarrow> jsstring \<Rightarrow> (jsstring \<times> jsstring) option" where
  "lazy_prefix taken [] = map_option (Pair taken) (spaces_percentage [])"
| "lazy_prefix taken (c # r) =
     (case spaces_percentage (c # r) of
        Some ds \<Rightarrow> Some (taken, ds)
      | None \<Rightarrow> if is_line_terminator c then None else lazy_prefix (taken @ [c]) r)"

text \<open>\<open>match\<close> without the \<open>g\<close> flag: the match at the first position that has one.\<close>

fun rubric_match :: "jsstring \<Rightarrow> (jsstring \<times> jsstring) option" where
  "rubric_match [] = lazy_prefix [] []"
| "rubric_match (c # r) =
     (case lazy_prefix [] (c # r) of Some m \<Rightarrow> Some m | None \<Rightarrow> rubric_match r)"

text \<open>The function mapped over the lines: a criterion, or \<open>null\<close>.\<close>

definition parse_line :: "jsstring \<Rightarrow> Criterion option" where
  "parse_line line =
     (case rubric_match line of
        Some (g1, g2) \<Rightarrow> Some \<lparr>name = trim g1, weight = parseInt g2\<rparr>
      | None \<Rightarrow> None)"

definition parseRubric :: "jsstring \<Rightarrow> Criterion list" where
  "parseRubric rubricText =
     map the (filter (\<lambda>item. item \<noteq> None) (map parse_line (split_lines rubricText)))"

subsection \<open>Grading one criterion\<close>

text \<open>
  What \<open>callAIAPIWithFile\<close> throws is known by its \<open>message\<close> property: a string for the
  \<open>Error\<close>s it creates and for those of \<open>fetch\<close>, \<open>undefined\<close> for the event with which
  \<open>fileToBase64\<close> rejects.
\<close>

datatype thrown = Thrown "jsstring option"

text \<open>
  The world outside: the outcome of the \<open>k\<close>-th call of \<open>callAIAPIWithFile\<close> (it throws,
  or returns the text of the model's answer), the \<open>k\<close>-th value of \<open>Date.now()\<close>, and
  the string \<open>Math.random().toString(36)\<close> of the \<open>k\<close>-th random number. The state counts
  the calls made so far.
\<close>

record env =
  api_outcome :: "nat \<Rightarrow> thrown + jsstring"
  date_now :: "nat \<Rightarrow> int"
  random_string :: "nat \<Rightarrow> jsstring"

record world =
  api_calls :: nat
  clock_reads :: nat
  random_draws :: nat

text \<open>
  One request to the service. The prompt that \<open>gradeCriterion\<close> builds from the subject,
  the criterion and the maximal score goes nowhere but to the service, whose answer is
  the environment's; it is left out.
\<close>

definition callAIAPIWithFile :: "env \<Rightarrow> File \<Rightarrow> world \<Rightarrow> (thrown + jsstring) \<times> world" where
  "callAIAPIWithFile e file w = (api_outcome e (api_calls w), w\<lparr>api_calls := Suc (api_calls w)\<rparr>)"

text \<open>
  \<open>response.match(/SCORE:\s*(\d+)/i)\<close>. With the \<open>i\<close> flag a code unit matches a letter
  of the pattern when both have the same upper case; a code unit outside ASCII never
  counts as an ASCII letter.
\<close>

definition canonicalize :: "16 word \<Rightarrow> 16 word" where
  "canonicalize c = (if 0x61 \<le> c \<and> c \<le> 0x7A then c - 0x20 else c)"

fun ignore_case_prefix :: "jsstring \<Rightarrow> jsstring \<Rightarrow> jsstring option" where
  "ignore_case_prefix [] s = Some s"
| "ignore_case_prefix (p # ps) [] = None"
| "ignore_case_prefix (p # ps) (c # cs) =
     (if canonicalize c = canonicalize p then ignore_case_prefix ps cs else None)"

definition score_at :: "jsstring \<Rightarrow> jsstring option" where
  "score_at s =
     (case ignore_case_prefix (lit ''SCORE:'') s of
        None \<Rightarrow> None
      | Some r \<Rightarrow>
          if takeWhile is_digit (dropWhile is_space r) \<noteq> []
          then Some (takeWhile is_digit (dropWhile is_space r)) else None)"

fun score_match :: "jsstring \<Rightarrow> jsstring option" where
  "score_match [] = score_at []"
| "score_match (c # r) = (case score_at (c # r) of Some ds \<Rightarrow> Some ds | None \<Rightarrow> score_match r)"

record Grade =
  score :: number
  feedback :: jsstring

text \<open>\<open>${error.message}\<close> in the template of the \<open>catch\<close> block.\<close>

fun message_text :: "thrown \<Rightarrow> jsstring" where
  "message_text (Thrown (Some m)) = m"
| "message_text (Thrown None) = lit ''undefined''"

text \<open>The \<open>try\<close> block, from the answer of the service on.\<close>

definition read_score :: "number \<Rightarrow> thrown + jsstring \<Rightarrow> thrown + Grade" where
  "read_score maxScore outcome =
     (case outcome of
        Inl err \<Rightarrow> Inl err
      | Inr response \<Rightarrow>
          (case score_match response of
             None \<Rightarrow> Inl (Thrown (Some (lit ''AI response did not contain a valid score'')))
           | Some digits \<Rightarrow>
               (let parsed = parseInt digits
                in if isNaN parsed \<or> js_lt parsed (Num 0) \<or> js_gt parsed maxScore
                   then Inl (Thrown (Some (lit ''AI response contained an invalid score'')))
                   else Inr \<lparr>score = parsed, feedback = response\<rparr>)))"

definition gradeCriterion ::
  "env \<Rightarrow> File \<Rightarrow> jsstring \<Rightarrow> number \<Rightarrow> jsstring \<Rightarrow> world \<Rightarrow> Grade \<times> world" where
  "gradeCriterion e answer criterionName maxScore subject w =
     (let (outcome, w1) = callAIAPIWithFile e answer w
      in (case read_score maxScore outcome of
            Inr grade \<Rightarrow> grade
          | Inl err \<Rightarrow>
              \<lparr>score = Math_floor (js_mul maxScore (to_double (7 / 10))),
               feedback = lit ''Unable to perform AI grading: '' @ message_text err @
                          lit ''. Please review manually.''\<rparr>,
          w1))"

subsection \<open>Grading the files\<close>

record CriterionResult =
  name :: jsstring
  score :: number
  maxScore :: number
  feedback :: jsstring

text \<open>
  \<open>Promise.all(criteria.map(async criterion => ...))\<close>: the requests are issued in the
  order of the criteria, and the results are collected in that order.
\<close>

fun grade_criteria :: "env \<Rightarrow> File \<Rightarrow> Criterion list \<Rightarrow> world \<Rightarrow> CriterionResult list \<times> world" where
  "grade_criteria e file [] w = ([], w)"
| "grade_criteria e file (criterion # rest) w =
     (let (grade, w1) = gradeCriterion e file (Criterion.name criterion) (weight criterion) [] w;
          (results, w2) = grade_criteria e file rest w1
      in (\<lparr>name = Criterion.name criterion, score = Grade.score grade,
           maxScore = weight criterion, feedback = Grade.feedback grade\<rparr> # results, w2))"

text \<open>\<open>Math.round(sum of the scores / sum of the maximal scores * 100)\<close>.\<close>

definition total_score :: "CriterionResult list \<Rightarrow> number" where
  "total_score criteriaResults =
     Math_round
       (js_mul
          (js_div (foldl (\<lambda>sum criterion. js_add sum (CriterionResult.score criterion)) (Num 0)
                     criteriaResults)
                  (foldl (\<lambda>sum criterion. js_add sum (maxScore criterion)) (Num 0)
                     criteriaResults))
          (Num 100))"

definition overall_feedback :: "number \<Rightarrow> jsstring" where
  "overall_feedback totalScore =
     (if js_ge totalScore (Num 80) then lit ''Excellent work overall!''
      else if js_ge totalScore (Num 60) then lit ''Good work with room for improvement.''
      else if js_ge totalScore (Num 40) then lit ''Needs significant improvement.''
      else lit ''Requires extensive revision.'')"

text \<open>
  \<open>s.replace(/\.[^/.]+$/, "")\<close>: the first position where a dot is followed, up to the
  end of the string, by one or more code units none of which is a dot or a slash; the
  match, which reaches the end, is removed.
\<close>

fun remove_extension :: "jsstring \<Rightarrow> jsstring" where
  "remove_extension [] = []"
| "remove_extension (c # r) =
     (if c = 0x2E \<and> r \<noteq> [] \<and> list_all (\<lambda>x. x \<noteq> 0x2F \<and> x \<noteq> 0x2E) r then []
      else c # remove_extension r)"

record GradingResult =
  id' :: jsstring
  name :: jsstring
  score :: number
  feedback :: jsstring
  criteria :: "CriterionResult list"

text \<open>The body of the loop over the files, and the loop.\<close>

definition grade_file :: "env \<Rightarrow> Criterion list \<Rightarrow> File \<Rightarrow> world \<Rightarrow> GradingResult \<times> world" where
  "grade_file e crits file w =
     (let (criteriaResults, w1) = grade_criteria e file crits w;
          totalScore = total_score criteriaResults;
          overallFeedback = overall_feedback totalScore;
          now = date_now e (clock_reads w1);
          w2 = w1\<lparr>clock_reads := Suc (clock_reads w1)\<rparr>;
          random = random_string e (random_draws w2);
          w3 = w2\<lparr>random_draws := Suc (random_draws w2)\<rparr>
      in (\<lparr>id' = lit ''student-'' @ int_to_string now @ lit ''-'' @ substr random 2 9,
           name = remove_extension (File.name file),
           score = totalScore,
           feedback = overallFeedback,
           criteria = criteriaResults\<rparr>, w3))"

fun grade_files :: "env \<Rightarrow> Criterion list \<Rightarrow> File list \<Rightarrow> world \<Rightarrow> GradingResult list \<times> world" where
  "grade_files e crits [] w = ([], w)"
| "grade_files e crits (file # rest) w =
     (let (result, w1) = grade_file e crits file w;
          (results, w2) = grade_files e crits rest w1
      in (result # results, w2))"

definition processStudentAnswers ::
  "env \<Rightarrow> File list \<Rightarrow> jsstring \<Rightarrow> world \<Rightarrow> GradingResult list \<times> world" where
  "processStudentAnswers e studentFiles rubricText w =
     grade_files e (parseRubric rubricText) studentFiles w"


section \<open>The grading page\<close>

text \<open>
  The state of the form, and what \<open>handleSubmit\<close> does, in order: the toasts it shows,
  the calls of \<open>setIsSubmitting\<close>, the two seconds it waits, the route it pushes. A
  toast has a title, a description and, when given, a variant.
\<close>

record page =
  subject :: "jsstring option"
  sessionName :: jsstring
  studentFiles :: "File list"
  rubricFile :: "File option"
  useTemplateRubric :: bool
  isSubmitting :: bool

datatype effect =
    PreventDefault
  | Toast jsstring jsstring "jsstring option"
  | SetIsSubmitting bool
  | Wait nat
  | RouterPush jsstring

text \<open>
  \<open>now\<close> is the value of \<open>Date.now()\<close> read for the route; \<open>navigation_fails\<close> tells whether
  \<open>router.push\<close> throws, which is what the \<open>catch\<close> block is there for.
\<close>

definition handleSubmit :: "int \<Rightarrow> bool \<Rightarrow> page \<Rightarrow> effect list \<times> page" where
  "handleSubmit now navigation_fails p =
     (if subject p = None \<or> subject p = Some [] then
        ([PreventDefault,
          Toast (lit ''Subject required'') (lit ''Please select a subject for grading'')
            (Some (lit ''destructive''))], p)
      else if length (studentFiles p) = 0 then
        ([PreventDefault,
          Toast (lit ''Student files required'')
            (lit ''Please upload at least one student answer file'')
            (Some (lit ''destructive''))], p)
      else if rubricFile p = None \<and> \<not> useTemplateRubric p then
        ([PreventDefault,
          Toast (lit ''Rubric required'') (lit ''Please either upload a rubric or use a template'')
            (Some (lit ''destructive''))], p)
      else
        ([PreventDefault, SetIsSubmitting True, Wait 2000,
          Toast (lit ''Grading started'')
            (lit ''Your files have been uploaded and grading has begun'') None] @
         (if navigation_fails
          then [Toast (lit ''Error'') (lit ''There was an error starting the grading process'')
                  (Some (lit ''destructive''))]
          else [RouterPush (lit ''/grading/results/session-'' @ int_to_string now)]) @
         [SetIsSubmitting False],
         p\<lparr>isSubmitting := False\<rparr>))"


section \<open>Notions used in the statements\<close>

text \<open>
  The two storage keys of the authentication layer, and what it means for a piece of
  code that takes the storage from \<open>ls\<close> to \<open>ls'\<close> to touch no other key: the
  calls it adds to the log all name a key of \<open>K\<close>, and every item under another key is
  as it was.
\<close>

definition auth_keys :: "jsstring set" where
  "auth_keys = {USERS_STORAGE_KEY, lit ''current_user''}"

definition touches_only :: "jsstring set \<Rightarrow> localStorage \<Rightarrow> localStorage \<Rightarrow> bool" where
  "touches_only K ls ls' \<longleftrightarrow>
     take (length (accesses ls)) (accesses ls') = accesses ls \<and>
     key_of ` set (drop (length (accesses ls)) (accesses ls')) \<subseteq> K \<and>
     (\<forall>k. k \<notin> K \<longrightarrow> items ls' k = items ls k)"

text \<open>
  An element of the stored array has the email \<open>e\<close>: it is an object, and its \<open>email\<close>
  property is the string \<open>e\<close>.
\<close>

definition has_email :: "jsstring \<Rightarrow> json \<Rightarrow> bool" where
  "has_email e v = (case v of JObj kvs \<Rightarrow> map_of kvs (lit ''email'') = Some (JStr e) | _ \<Rightarrow> False)"


text \<open>
  A parenthesised percentage in a line: at position \<open>i\<close> stand \<open>(\<close>, the digits \<open>ds\<close> (one
  or more) and \<open>%)\<close>. It is the first one when none starts further left. \<open>name_before\<close>
  is what the rubric's regular expression makes of the text \<open>pre\<close> in front of it: the
  white space at the end of \<open>pre\<close> is set aside, of what is left the part after the last
  line terminator is kept, and that is trimmed.
\<close>

definition percentage_at :: "jsstring \<Rightarrow> nat \<Rightarrow> jsstring \<Rightarrow> bool" where
  "percentage_at line i ds \<longleftrightarrow>
     i \<le> length line \<and> ds \<noteq> [] \<and> list_all is_digit ds \<and>
     (\<exists>rest. drop i line = lit ''('' @ ds @ lit ''%)'' @ rest)"

definition first_percentage :: "jsstring \<Rightarrow> nat \<Rightarrow> jsstring \<Rightarrow> bool" where
  "first_percentage line i ds \<longleftrightarrow>
     percentage_at line i ds \<and> (\<forall>j < i. \<forall>ds'. \<not> percentage_at line j ds')"

definition name_before :: "jsstring \<Rightarrow> jsstring" where
  "name_before pre =
     trim (rev (takeWhile (\<lambda>c. \<not> is_line_terminator c) (dropWhile is_space (rev pre))))"

text \<open>
  A score in the answer of the service: at position \<open>i\<close> stands the word \<open>SCORE:\<close> in any
  mix of cases, then white space, if any, then the digits \<open>ds\<close>, all there are.
\<close>

definition score_in :: "jsstring \<Rightarrow> nat \<Rightarrow> jsstring \<Rightarrow> bool" where
  "score_in response i ds \<longleftrightarrow>
     i \<le> length response \<and> ds \<noteq> [] \<and> list_all is_digit ds \<and>
     (\<exists>kw sp rest. drop i response = kw @ sp @ ds @ rest \<and>
        map canonicalize kw = lit ''SCORE:'' \<and> list_all is_space sp \<and>
        (rest = [] \<or> \<not> is_digit (hd rest)))"

definition first_score :: "jsstring \<Rightarrow> nat \<Rightarrow> jsstring \<Rightarrow> bool" where
  "first_score response i ds \<longleftrightarrow>
     score_in response i ds \<and> (\<forall>j < i. \<forall>ds'. \<not> score_in response j ds')"


subsection \<open>Example states\<close>

text \<open>
  A visitor with nobody registered yet (the storage holds an item of another part of
  the site), and Ann as she is stored once she has registered there.
\<close>

definition visitor :: auth where
  "visitor =
     \<lparr>user = JNull, loading = False,
      storage = \<lparr>items = [lit ''theme'' \<mapsto> Json (JStr (lit ''dark''))], accesses = []\<rparr>\<rparr>"

definition ann :: StoredUser where
  "ann = StoredUser (lit ''user-k3j9x0a2b'') (lit ''Ann'') (lit ''ann@kmitl.ac.th'') (lit ''secret'')"

text \<open>
  A browser whose array of users was not written by \<open>register\<close>: a guest without an
  email, then Ann with her properties in another order and without \<open>id\<close> and
  \<open>password\<close>. And one where a \<open>null\<close> stands in front of Ann's record.
\<close>

definition imported :: auth where
  "imported =
     \<lparr>user = JNull, loading = False,
      storage = \<lparr>items = [USERS_STORAGE_KEY \<mapsto>
                   Json (JArr [JObj [(lit ''name'', JStr (lit ''Guest''))],
                               JObj [(lit ''email'', JStr (lit ''ann@kmitl.ac.th'')),
                                     (lit ''name'', JStr (lit ''Ann''))]])],
                 accesses = []\<rparr>\<rparr>"

definition damaged :: auth where
  "damaged =
     \<lparr>user = JNull, loading = False,
      storage = \<lparr>items = [USERS_STORAGE_KEY \<mapsto> Json (JArr [JNull, stored_user_json ann])],
                 accesses = []\<rparr>\<rparr>"

text \<open>
  A grading session: the service answers the first request with a score of 23, fails
  on the second, and answers the later ones without a score.
\<close>

definition classroom :: env where
  "classroom =
     \<lparr>api_outcome = (\<lambda>k. if k = 0 then Inr (lit ''SCORE: 23'')
                         else if k = 1 then Inl (Thrown (Some (lit ''Failed to fetch'')))
                         else Inr (lit ''Well argued.'')),
      date_now = (\<lambda>k. 1730550000000 + int k),
      random_string = (\<lambda>k. lit ''0.4fzyo82mvyr'')\<rparr>"

definition start :: world where
  "start = \<lparr>api_calls = 0, clock_reads = 0, random_draws = 0\<rparr>"

definition essay :: File where
  "essay = \<lparr>File.name = lit ''somchai.essay.pdf'', mime_type = lit ''application/pdf''\<rparr>"

definition readme :: File where
  "readme = \<lparr>File.name = lit ''README'', mime_type = lit ''text/plain''\<rparr>"

definition empty_form :: page where
  "empty_form =
     \<lparr>subject = None, sessionName = [], studentFiles = [], rubricFile = None,
      useTemplateRubric = False, isSubmitting = False\<rparr>"


section \<open>Properties of the authentication context\<close>

lemma touches_only_refl: "touches_only K ls ls"
  by (simp add: touches_only_def)

lemma touches_only_getItem: "k \<in> K \<Longrightarrow> touches_only K ls (snd (getItem k ls))"
  by (simp add: touches_only_def getItem_def)

lemma touches_only_setItem: "k \<in> K \<Longrightarrow> touches_only K ls (setItem k v ls)"
  by (auto simp add: touches_only_def setItem_def)

lemma touches_only_removeItem: "k \<in> K \<Longrightarrow> touches_only K ls (removeItem k ls)"
  by (auto simp add: touches_only_def removeItem_def)

lemma touches_only_trans:
  assumes "touches_only K a b" and "touches_only K b c"
  shows "touches_only K a c"
proof -
  obtain n1 where b: "accesses b = accesses a @ n1" "key_of ` set n1 \<subseteq> K"
    using assms(1) unfolding touches_only_def
    by (metis append_take_drop_id)
  obtain n2 where c: "accesses c = accesses b @ n2" "key_of ` set n2 \<subseteq> K"
    using assms(2) unfolding touches_only_def
    by (metis append_take_drop_id)
  have "accesses c = accesses a @ (n1 @ n2)" using b c by simp
  moreover have "key_of ` set (n1 @ n2) \<subseteq> K" using b c by auto
  moreover have "\<forall>k. k \<notin> K \<longrightarrow> items c k = items a k"
    using assms unfolding touches_only_def by simp
  ultimately show ?thesis unfolding touches_only_def by simp
qed

lemma users_key_in: "USERS_STORAGE_KEY \<in> auth_keys"
  and current_in: "lit ''current_user'' \<in> auth_keys"
  by (simp_all add: auth_keys_def)

lemma initial_load_touches:
  "touches_only auth_keys (storage st) (storage (snd (initial_load st)))"
  using touches_only_getItem [OF current_in, of "storage st"]
  by (simp add: initial_load_def getItem_def setUser_def setLoading_def Let_def
           split: option.splits sum.splits)

lemma getStoredUsers_touches: "touches_only auth_keys ls (snd (getStoredUsers ls))"
  using touches_only_getItem [OF users_key_in, of ls]
  by (simp add: getStoredUsers_def getItem_def)

lemma saveUsers_touches: "touches_only auth_keys ls (saveUsers us ls)"
  by (simp add: saveUsers_def touches_only_setItem users_key_in)

lemma login_touches: "touches_only auth_keys (storage st) (storage (snd (login e p st)))"
  by (simp add: login_def setUser_def setLoading_def touches_only_refl)

lemma logout_touches: "touches_only auth_keys (storage st) (storage (snd (logout st)))"
  by (simp add: logout_def setUser_def setLoading_def touches_only_removeItem current_in)

lemma register_body_touches:
  "touches_only auth_keys (storage st) (storage (snd (register_body r n e p st)))"
proof -
  obtain users ls1 where g: "getStoredUsers (storage st) = (users, ls1)"
    by (cases "getStoredUsers (storage st)")
  have t1: "touches_only auth_keys (storage st) ls1"
    using getStoredUsers_touches [of "storage st"] g by simp
  have t2: "touches_only auth_keys (storage st)
              (setItem (lit ''current_user'') v2 (saveUsers v1 ls1))" for v1 v2
    by (rule touches_only_trans [OF t1
          touches_only_trans [OF saveUsers_touches touches_only_setItem [OF current_in]]])
  show ?thesis
    using g t1 t2
    by (simp add: register_body_def Let_def setUser_def
             split: sum.splits bool.splits)
qed

lemma register_touches:
  "touches_only auth_keys (storage st) (storage (snd (register r n e p st)))"
  using register_body_touches [of "setLoading True st" r n e p]
  by (cases "register_body r n e p (setLoading True st)")
     (simp add: register_def setLoading_def)

text \<open>
  Claim C6. Every call on local storage made by the provider's initial load, by
  \<open>getStoredUsers\<close>, \<open>saveUsers\<close>, \<open>login\<close>, \<open>register\<close> and \<open>logout\<close> names one of the two
  keys \<open>fairgrade_users\<close> and \<open>current_user\<close>, and the item under any other key is left
  as it was, whatever the state, the storage and the arguments.
\<close>

theorem auth_touches_only_its_keys:
  "touches_only auth_keys (storage st) (storage (snd (initial_load st))) \<and>
   touches_only auth_keys ls (snd (getStoredUsers ls)) \<and>
   touches_only auth_keys ls (saveUsers users ls) \<and>
   touches_only auth_keys (storage st) (storage (snd (login e p st))) \<and>
   touches_only auth_keys (storage st) (storage (snd (register r n e p st))) \<and>
   touches_only auth_keys (storage st) (storage (snd (logout st)))"
  by (simp add: initial_load_touches getStoredUsers_touches saveUsers_touches login_touches
        register_touches logout_touches)

text \<open>
  The example storage also holds a \<open>theme\<close> item: after a registration the item is still
  there, and the calls logged are on the two keys.
\<close>

theorem auth_touches_only_its_keys_witness:
  "lit ''theme'' \<notin> auth_keys \<and>
   items (storage (snd (register (lit ''0.k3j9x0a2bq7'') (lit ''Ann'') (lit ''ann@kmitl.ac.th'')
            (lit ''secret'') visitor))) (lit ''theme'') = Some (Json (JStr (lit ''dark''))) \<and>
   key_of ` set (accesses (storage (snd (register (lit ''0.k3j9x0a2bq7'') (lit ''Ann'')
            (lit ''ann@kmitl.ac.th'') (lit ''secret'') visitor)))) \<subseteq> auth_keys"
proof -
  have k: "lit ''theme'' \<notin> auth_keys"
    by (simp add: auth_keys_def USERS_STORAGE_KEY_def lit_def)
  have "touches_only auth_keys (storage visitor)
          (storage (snd (register (lit ''0.k3j9x0a2bq7'') (lit ''Ann'') (lit ''ann@kmitl.ac.th'')
            (lit ''secret'') visitor)))"
    using auth_touches_only_its_keys by blast
  then show ?thesis
    using k unfolding touches_only_def by (simp add: visitor_def)
qed

text \<open>
  Claim C8. \<open>login\<close> never throws, makes no call on local storage (so it never reads
  the stored users), and leaves as current user the object \<open>{email}\<close>; the password has
  no influence: two calls that differ only in the password return the same outcome
  and the same state.
\<close>

theorem login_ignores_password:
  "login email p1 st = login email p2 st \<and>
   login email p1 st =
     (None, st\<lparr>user := JObj [(lit ''email'', JStr email)], loading := False\<rparr>) \<and>
   storage (snd (login email p1 st)) = storage st"
  by (simp add: login_def setUser_def setLoading_def)

lemma email_exists_False_array:
  "email_exists us e = Inr False \<Longrightarrow> \<exists>xs. us = JArr xs"
  by (cases us) (simp_all add: email_exists_def)

text \<open>
  Claim C7. When \<open>register\<close> succeeds, the stored value under \<open>fairgrade_users\<close> was
  an array \<open>xs\<close> (or there was none: \<open>xs\<close> is empty) with no element of that email, and
  it becomes \<open>xs\<close> followed by the new user, whose \<open>password\<close> field is the password as
  it was passed in; the value written under \<open>current_user\<close>, and the current user of the
  state, is the object with the fields \<open>id\<close>, \<open>name\<close> and \<open>email\<close> only.
\<close>

theorem register_stores_plain_password:
  assumes "register r n e p st = (None, st')"
  shows "\<exists>xs. fst (getStoredUsers (storage st)) = Inr (JArr xs) \<and>
           email_exists (JArr xs) e = Inr False \<and>
           items (storage st') USERS_STORAGE_KEY =
             Some (Json (JArr (map serialised xs @
               [JObj [(lit ''id'', JStr (lit ''user-'' @ substr r 2 9)), (lit ''name'', JStr n),
                      (lit ''email'', JStr e), (lit ''password'', JStr p)]]))) \<and>
           items (storage st') (lit ''current_user'') =
             Some (Json (JObj [(lit ''id'', JStr (lit ''user-'' @ substr r 2 9)),
                               (lit ''name'', JStr n), (lit ''email'', JStr e)])) \<and>
           user st' = JObj [(lit ''id'', JStr (lit ''user-'' @ substr r 2 9)),
                            (lit ''name'', JStr n), (lit ''email'', JStr e)]"
proof -
  obtain users ls1 where g: "getStoredUsers (storage st) = (users, ls1)"
    by (cases "getStoredUsers (storage st)")
  from assms g obtain us where us: "users = Inr us" "email_exists us e = Inr False"
    by (auto simp add: register_def register_body_def Let_def setLoading_def
          split: sum.splits bool.splits prod.splits)
  then obtain xs where xs: "us = JArr xs"
    using email_exists_False_array by blast
  have "st' = st\<lparr>user := JObj [(lit ''id'', JStr (lit ''user-'' @ substr r 2 9)),
                               (lit ''name'', JStr n), (lit ''email'', JStr e)],
                 storage := setItem (lit ''current_user'')
                   (JSON_stringify (JObj [(lit ''id'', JStr (lit ''user-'' @ substr r 2 9)),
                               (lit ''name'', JStr n), (lit ''email'', JStr e)]))
                   (saveUsers (JArr (xs @
                      [JObj [(lit ''id'', JStr (lit ''user-'' @ substr r 2 9)),
                             (lit ''name'', JStr n), (lit ''email'', JStr e),
                             (lit ''password'', JStr p)]])) ls1),
                 loading := False\<rparr>"
    using assms g us xs
    by (simp add: register_def register_body_def Let_def setLoading_def setUser_def
          spread_append_def)
  then show ?thesis
    using g us xs
    by (simp add: saveUsers_def setItem_def JSON_stringify_def USERS_STORAGE_KEY_def lit_def)
qed

text \<open>Ann registers on the visitor's browser.\<close>

theorem register_stores_plain_password_witness:
  "fst (register (lit ''0.k3j9x0a2bq7'') (lit ''Ann'') (lit ''ann@kmitl.ac.th'') (lit ''secret'')
          visitor) = None \<and>
   items (storage (snd (register (lit ''0.k3j9x0a2bq7'') (lit ''Ann'') (lit ''ann@kmitl.ac.th'')
          (lit ''secret'') visitor))) USERS_STORAGE_KEY =
     Some (Json (JArr [stored_user_json ann])) \<and>
   items (storage (snd (register (lit ''0.k3j9x0a2bq7'') (lit ''Ann'') (lit ''ann@kmitl.ac.th'')
          (lit ''secret'') visitor))) (lit ''current_user'') =
     Some (Json (JObj [(lit ''id'', JStr (lit ''user-k3j9x0a2b'')),
                       (lit ''name'', JStr (lit ''Ann'')),
                       (lit ''email'', JStr (lit ''ann@kmitl.ac.th''))]))"
proof -
  have users: "getStoredUsers (storage visitor) =
      (Inr (JArr []), (storage visitor)\<lparr>accesses := [GetItem USERS_STORAGE_KEY]\<rparr>)"
    by (simp add: visitor_def getStoredUsers_def getItem_def truthy_def USERS_STORAGE_KEY_def
          lit_def)
  have f: "fst (register (lit ''0.k3j9x0a2bq7'') (lit ''Ann'') (lit ''ann@kmitl.ac.th'')
          (lit ''secret'') visitor) = None"
    using users
    by (simp add: register_def register_body_def setLoading_def email_exists_def
          spread_append_def Let_def)
  then have r: "register (lit ''0.k3j9x0a2bq7'') (lit ''Ann'') (lit ''ann@kmitl.ac.th'')
          (lit ''secret'') visitor =
        (None, snd (register (lit ''0.k3j9x0a2bq7'') (lit ''Ann'') (lit ''ann@kmitl.ac.th'')
          (lit ''secret'') visitor))"
    by (metis prod.collapse)
  have uid: "lit ''user-'' @ substr (lit ''0.k3j9x0a2bq7'') 2 9 = lit ''user-k3j9x0a2b''"
    by (simp add: lit_def substr_def)
  show ?thesis
    using register_stores_plain_password [OF r] users f uid
    by (auto simp add: ann_def)
qed

text \<open>
  What \<open>users.some(u => u.email === email)\<close> finds in an array: the callback is true of
  an element that has the email, throws on \<open>null\<close>, and is false of every other value; the
  search goes from the left and stops at the first element of which it is true.
\<close>

lemma email_is_has_email: "email_is e v = Inr True \<longleftrightarrow> has_email e v"
  by (cases v) (simp_all add: has_email_def)

lemma some_elem_email_hit:
  assumes "i < length xs" and "has_email e (xs ! i)" and "JNull \<notin> set (take i xs)"
  shows "some_elem (email_is e) xs = Inr True"
  using assms
proof (induction xs arbitrary: i)
  case Nil
  then show ?case by simp
next
  case (Cons x xs)
  show ?case
  proof (cases i)
    case 0
    with Cons.prems(2) have "email_is e x = Inr True"
      by (simp add: email_is_has_email)
    then show ?thesis by simp
  next
    case (Suc j)
    with Cons.prems have j: "j < length xs" "has_email e (xs ! j)" "JNull \<notin> set (take j xs)"
      and x: "x \<noteq> JNull"
      by auto
    from x have "\<exists>b. email_is e x = Inr b"
      by (cases x) auto
    then obtain b where b: "email_is e x = Inr b" ..
    from Cons.IH [OF j] b show ?thesis
      by (cases b) simp_all
  qed
qed

lemma some_elem_email_found:
  assumes "some_elem (email_is e) xs = Inr True"
  shows "\<exists>i < length xs. has_email e (xs ! i) \<and> JNull \<notin> set (take i xs)"
  using assms
proof (induction xs)
  case Nil
  then show ?case by simp
next
  case (Cons x xs)
  show ?case
  proof (cases "email_is e x")
    case (Inl err)
    with Cons.prems show ?thesis by simp
  next
    case (Inr b)
    show ?thesis
    proof (cases b)
      case True
      with Inr have "has_email e x"
        by (simp add: email_is_has_email [symmetric])
      then have "0 < length (x # xs) \<and> has_email e ((x # xs) ! 0) \<and>
          JNull \<notin> set (take 0 (x # xs))"
        by simp
      then show ?thesis by blast
    next
      case False
      with Inr Cons.prems have "some_elem (email_is e) xs = Inr True"
        by simp
      from Cons.IH [OF this] obtain j where
        j: "j < length xs" "has_email e (xs ! j)" "JNull \<notin> set (take j xs)"
        by blast
      from Inr have "x \<noteq> JNull"
        by (cases x) simp_all
      with j have "Suc j < length (x # xs) \<and> has_email e ((x # xs) ! Suc j) \<and>
          JNull \<notin> set (take (Suc j) (x # xs))"
        by simp
      then show ?thesis by blast
    qed
  qed
qed

lemma some_elem_email_iff:
  "some_elem (email_is e) xs = Inr True \<longleftrightarrow>
     (\<exists>i < length xs. has_email e (xs ! i) \<and> JNull \<notin> set (take i xs))"
  using some_elem_email_hit [of _ xs e] some_elem_email_found [of e xs] by blast

lemma email_is_exn: "email_is e v = Inl x \<Longrightarrow> x = TypeError"
  by (cases v) simp_all

lemma some_elem_email_exn: "some_elem (email_is e) xs = Inl x \<Longrightarrow> x = TypeError"
proof (induction xs)
  case Nil
  then show ?case by simp
next
  case (Cons y ys)
  then show ?case
    by (cases "email_is e y") (auto dest: email_is_exn split: bool.splits)
qed

lemma getStoredUsers_snd:
  "snd (getStoredUsers ls) = ls\<lparr>accesses := accesses ls @ [GetItem USERS_STORAGE_KEY]\<rparr>"
  by (simp add: getStoredUsers_def getItem_def)

text \<open>
  The four ways through \<open>register\<close>: the stored text is not JSON, the search throws, the
  search finds the email, or it does not and the new user is written.
\<close>

lemma register_parse_error:
  assumes "fst (getStoredUsers (storage st)) = Inl x"
  shows "register r n e p st =
           (Some x, st\<lparr>loading := False,
                      storage := (storage st)\<lparr>accesses :=
                        accesses (storage st) @ [GetItem USERS_STORAGE_KEY]\<rparr>\<rparr>)"
proof -
  have "getStoredUsers (storage st) =
      (Inl x, (storage st)\<lparr>accesses := accesses (storage st) @ [GetItem USERS_STORAGE_KEY]\<rparr>)"
    using assms getStoredUsers_snd [of "storage st"] by (cases "getStoredUsers (storage st)") simp
  then show ?thesis
    by (simp add: register_def register_body_def setLoading_def)
qed

lemma register_check_error:
  assumes "fst (getStoredUsers (storage st)) = Inr us" and "email_exists us e = Inl x"
  shows "register r n e p st =
           (Some x, st\<lparr>loading := False,
                      storage := (storage st)\<lparr>accesses :=
                        accesses (storage st) @ [GetItem USERS_STORAGE_KEY]\<rparr>\<rparr>)"
proof -
  have "getStoredUsers (storage st) =
      (Inr us, (storage st)\<lparr>accesses := accesses (storage st) @ [GetItem USERS_STORAGE_KEY]\<rparr>)"
    using assms(1) getStoredUsers_snd [of "storage st"]
    by (cases "getStoredUsers (storage st)") simp
  then show ?thesis
    using assms(2) by (simp add: register_def register_body_def setLoading_def)
qed

lemma register_duplicate:
  assumes "fst (getStoredUsers (storage st)) = Inr us" and "email_exists us e = Inr True"
  shows "register r n e p st =
           (Some (Error (lit ''Email already registered'')),
            st\<lparr>loading := False,
               storage := (storage st)\<lparr>accesses :=
                 accesses (storage st) @ [GetItem USERS_STORAGE_KEY]\<rparr>\<rparr>)"
proof -
  have "getStoredUsers (storage st) =
      (Inr us, (storage st)\<lparr>accesses := accesses (storage st) @ [GetItem USERS_STORAGE_KEY]\<rparr>)"
    using assms(1) getStoredUsers_snd [of "storage st"]
    by (cases "getStoredUsers (storage st)") simp
  then show ?thesis
    using assms(2) by (simp add: register_def register_body_def setLoading_def)
qed

lemma register_not_thrown:
  assumes "fst (getStoredUsers (storage st)) = Inr us" and "email_exists us e = Inr False"
  shows "fst (register r n e p st) = None"
proof -
  obtain ls1 where g: "getStoredUsers (storage st) = (Inr us, ls1)"
    using assms(1) by (cases "getStoredUsers (storage st)") simp
  obtain xs where "us = JArr xs"
    using assms(2) by (cases us) (simp_all add: email_exists_def)
  with assms(2) g show ?thesis
    unfolding register_def register_body_def
    by (simp add: setLoading_def spread_append_def Let_def)
qed

lemma email_exists_exn: "email_exists us e = Inl x \<Longrightarrow> x = TypeError"
  by (cases us) (auto simp add: email_exists_def dest: some_elem_email_exn)

lemma getStoredUsers_exn: "fst (getStoredUsers ls) = Inl x \<Longrightarrow> x = SyntaxError"
  by (auto simp add: getStoredUsers_def getItem_def truthy_def JSON_parse_def
        split: option.splits json_text.splits)

lemma getStoredUsers_array:
  "fst (getStoredUsers ls) = Inr (JArr xs) \<longleftrightarrow>
     items ls USERS_STORAGE_KEY = Some (Json (JArr xs)) \<or>
     xs = [] \<and> (items ls USERS_STORAGE_KEY = None \<or> items ls USERS_STORAGE_KEY = Some EmptyText)"
  by (auto simp add: getStoredUsers_def getItem_def truthy_def JSON_parse_def
        split: option.splits json_text.splits)

lemma email_exists_True:
  "email_exists us e = Inr True \<longleftrightarrow> (\<exists>xs. us = JArr xs \<and> some_elem (email_is e) xs = Inr True)"
  by (cases us) (simp_all add: email_exists_def)

lemma register_duplicate_stored:
  assumes "items (storage st) USERS_STORAGE_KEY = Some (Json (JArr xs))"
    and "i < length xs" and "has_email e (xs ! i)" and "JNull \<notin> set (take i xs)"
  shows "register r n e p st =
           (Some (Error (lit ''Email already registered'')),
            st\<lparr>loading := False,
               storage := (storage st)\<lparr>accesses :=
                 accesses (storage st) @ [GetItem USERS_STORAGE_KEY]\<rparr>\<rparr>)"
proof -
  have "fst (getStoredUsers (storage st)) = Inr (JArr xs)"
    using assms(1) by (simp add: getStoredUsers_array)
  moreover have "email_exists (JArr xs) e = Inr True"
    using some_elem_email_hit [OF assms(2,3,4)] by (simp add: email_exists_def)
  ultimately show ?thesis by (rule register_duplicate)
qed

lemma register_duplicate_only:
  assumes "fst (register r n e p st) = Some (Error (lit ''Email already registered''))"
  shows "\<exists>xs i. items (storage st) USERS_STORAGE_KEY = Some (Json (JArr xs)) \<and> i < length xs \<and>
            has_email e (xs ! i) \<and> JNull \<notin> set (take i xs)"
proof (cases "fst (getStoredUsers (storage st))")
  case (Inl x)
  with assms getStoredUsers_exn [OF Inl] show ?thesis by (simp add: register_parse_error)
next
  case (Inr us)
  show ?thesis
  proof (cases "email_exists us e")
    case (Inl x)
    with assms Inr email_exists_exn [OF Inl] show ?thesis by (simp add: register_check_error)
  next
    case b: (Inr b)
    show ?thesis
    proof (cases b)
      case True
      with b obtain xs where us: "us = JArr xs" and hit: "some_elem (email_is e) xs = Inr True"
        using email_exists_True [of us e] by auto
      from Inr us have "xs \<noteq> [] \<Longrightarrow> items (storage st) USERS_STORAGE_KEY = Some (Json (JArr xs))"
        by (simp add: getStoredUsers_array)
      moreover from hit have "xs \<noteq> []" by auto
      ultimately have "items (storage st) USERS_STORAGE_KEY = Some (Json (JArr xs))" by simp
      with some_elem_email_found [OF hit] show ?thesis by blast
    next
      case False
      with Inr b assms show ?thesis using register_not_thrown [of st us e r n p] by simp
    qed
  qed
qed

text \<open>
  Claim C10, as amended. When the value stored under \<open>fairgrade_users\<close> is an array with
  an element that has the email passed in, and no \<open>null\<close> stands before that element,
  \<open>register\<close> throws \<open>Error("Email already registered")\<close>; the only call on local storage
  is the read of \<open>fairgrade_users\<close>, so no item is written, the current user is as before
  and \<open>loading\<close> is back to \<open>false\<close>. It throws that error in no other case.
\<close>

theorem register_duplicate_email:
  "((\<exists>xs i. items (storage st) USERS_STORAGE_KEY = Some (Json (JArr xs)) \<and> i < length xs \<and>
            has_email e (xs ! i) \<and> JNull \<notin> set (take i xs)) \<longrightarrow>
      register r n e p st =
        (Some (Error (lit ''Email already registered'')),
         st\<lparr>loading := False,
            storage := (storage st)\<lparr>accesses :=
               accesses (storage st) @ [GetItem USERS_STORAGE_KEY]\<rparr>\<rparr>)) \<and>
   (fst (register r n e p st) = Some (Error (lit ''Email already registered'')) \<longrightarrow>
      (\<exists>xs i. items (storage st) USERS_STORAGE_KEY = Some (Json (JArr xs)) \<and> i < length xs \<and>
            has_email e (xs ! i) \<and> JNull \<notin> set (take i xs)))"
proof (intro conjI impI)
  assume "\<exists>xs i. items (storage st) USERS_STORAGE_KEY = Some (Json (JArr xs)) \<and> i < length xs \<and>
            has_email e (xs ! i) \<and> JNull \<notin> set (take i xs)"
  then obtain xs i where "items (storage st) USERS_STORAGE_KEY = Some (Json (JArr xs))"
    "i < length xs" "has_email e (xs ! i)" "JNull \<notin> set (take i xs)"
    by blast
  then show "register r n e p st =
        (Some (Error (lit ''Email already registered'')),
         st\<lparr>loading := False,
            storage := (storage st)\<lparr>accesses :=
               accesses (storage st) @ [GetItem USERS_STORAGE_KEY]\<rparr>\<rparr>)"
    by (rule register_duplicate_stored)
next
  assume "fst (register r n e p st) = Some (Error (lit ''Email already registered''))"
  then show "\<exists>xs i. items (storage st) USERS_STORAGE_KEY = Some (Json (JArr xs)) \<and> i < length xs \<and>
            has_email e (xs ! i) \<and> JNull \<notin> set (take i xs)"
    by (rule register_duplicate_only)
qed

text \<open>
  Somebody registers with Ann's email, and another password, where Ann's record comes
  second and has its properties in another order.
\<close>

theorem register_duplicate_email_witness:
  "items (storage imported) USERS_STORAGE_KEY =
     Some (Json (JArr [JObj [(lit ''name'', JStr (lit ''Guest''))],
                       JObj [(lit ''email'', JStr (lit ''ann@kmitl.ac.th'')),
                             (lit ''name'', JStr (lit ''Ann''))]])) \<and>
   has_email (lit ''ann@kmitl.ac.th'')
     ([JObj [(lit ''name'', JStr (lit ''Guest''))],
       JObj [(lit ''email'', JStr (lit ''ann@kmitl.ac.th'')),
             (lit ''name'', JStr (lit ''Ann''))]] ! 1) \<and>
   JNull \<notin> set (take 1 [JObj [(lit ''name'', JStr (lit ''Guest''))],
                          JObj [(lit ''email'', JStr (lit ''ann@kmitl.ac.th'')),
                                (lit ''name'', JStr (lit ''Ann''))]]) \<and>
   register (lit ''0.zzzzzzzzzzz'') (lit ''Eve'') (lit ''ann@kmitl.ac.th'') (lit ''guess'') imported =
     (Some (Error (lit ''Email already registered'')),
      imported\<lparr>loading := False,
         storage := (storage imported)\<lparr>accesses :=
            accesses (storage imported) @ [GetItem USERS_STORAGE_KEY]\<rparr>\<rparr>) \<and>
   items (storage (snd (register (lit ''0.zzzzzzzzzzz'') (lit ''Eve'') (lit ''ann@kmitl.ac.th'')
      (lit ''guess'') imported))) = items (storage imported) \<and>
   user (snd (register (lit ''0.zzzzzzzzzzz'') (lit ''Eve'') (lit ''ann@kmitl.ac.th'')
      (lit ''guess'') imported)) = user imported"
proof -
  let ?xs = "[JObj [(lit ''name'', JStr (lit ''Guest''))],
              JObj [(lit ''email'', JStr (lit ''ann@kmitl.ac.th'')),
                    (lit ''name'', JStr (lit ''Ann''))]]"
  have h1: "items (storage imported) USERS_STORAGE_KEY = Some (Json (JArr ?xs))"
    by (simp add: imported_def)
  have h2: "has_email (lit ''ann@kmitl.ac.th'') (?xs ! 1)"
    by (simp add: has_email_def)
  have h3: "JNull \<notin> set (take 1 ?xs)"
    by simp
  have "\<exists>xs i. items (storage imported) USERS_STORAGE_KEY = Some (Json (JArr xs)) \<and>
      i < length xs \<and> has_email (lit ''ann@kmitl.ac.th'') (xs ! i) \<and> JNull \<notin> set (take i xs)"
    using h1 h2 h3 by (intro exI [of _ ?xs] exI [of _ 1]) simp
  then have r: "register (lit ''0.zzzzzzzzzzz'') (lit ''Eve'') (lit ''ann@kmitl.ac.th'')
        (lit ''guess'') imported =
     (Some (Error (lit ''Email already registered'')),
      imported\<lparr>loading := False,
         storage := (storage imported)\<lparr>accesses :=
            accesses (storage imported) @ [GetItem USERS_STORAGE_KEY]\<rparr>\<rparr>)"
    using register_duplicate_email [of imported "lit ''ann@kmitl.ac.th''" "lit ''0.zzzzzzzzzzz''"
        "lit ''Eve''" "lit ''guess''"]
    by blast
  show ?thesis
    using h1 h2 h3 r by simp
qed

text \<open>
  The claim as it was stated, for every call where some stored user has the email, fails
  where a \<open>null\<close> stands before that user in the array: Ann is stored with this email,
  but reading the \<open>email\<close> property of \<open>null\<close> throws a \<open>TypeError\<close> before her record
  is reached. Nothing is written in this case either.
\<close>

theorem register_duplicate_email_counterexample:
  "items (storage damaged) USERS_STORAGE_KEY = Some (Json (JArr [JNull, stored_user_json ann])) \<and>
   stored_user_json ann =
     JObj [(lit ''id'', JStr (lit ''user-k3j9x0a2b'')), (lit ''name'', JStr (lit ''Ann'')),
           (lit ''email'', JStr (lit ''ann@kmitl.ac.th'')), (lit ''password'', JStr (lit ''secret''))] \<and>
   has_email (lit ''ann@kmitl.ac.th'') ([JNull, stored_user_json ann] ! 1) \<and>
   register (lit ''0.zzzzzzzzzzz'') (lit ''Eve'') (lit ''ann@kmitl.ac.th'') (lit ''guess'') damaged =
     (Some TypeError,
      damaged\<lparr>loading := False,
         storage := (storage damaged)\<lparr>accesses :=
            accesses (storage damaged) @ [GetItem USERS_STORAGE_KEY]\<rparr>\<rparr>) \<and>
   fst (register (lit ''0.zzzzzzzzzzz'') (lit ''Eve'') (lit ''ann@kmitl.ac.th'') (lit ''guess'')
          damaged) \<noteq> Some (Error (lit ''Email already registered''))"
proof -
  have h: "items (storage damaged) USERS_STORAGE_KEY =
      Some (Json (JArr [JNull, stored_user_json ann]))"
    by (simp add: damaged_def)
  have g: "getStoredUsers (storage damaged) =
      (Inr (JArr [JNull, stored_user_json ann]),
       (storage damaged)\<lparr>accesses := accesses (storage damaged) @ [GetItem USERS_STORAGE_KEY]\<rparr>)"
    using h by (simp add: getStoredUsers_def getItem_def truthy_def JSON_parse_def)
  have r: "register (lit ''0.zzzzzzzzzzz'') (lit ''Eve'') (lit ''ann@kmitl.ac.th'') (lit ''guess'')
        damaged =
     (Some TypeError,
      damaged\<lparr>loading := False,
         storage := (storage damaged)\<lparr>accesses :=
            accesses (storage damaged) @ [GetItem USERS_STORAGE_KEY]\<rparr>\<rparr>)"
    using g by (simp add: register_def register_body_def setLoading_def email_exists_def)
  have e: "has_email (lit ''ann@kmitl.ac.th'') ([JNull, stored_user_json ann] ! 1)"
    by (simp add: ann_def has_email_def lit_def)
  show ?thesis
    using h r e by (simp add: ann_def)
qed


section \<open>Rounding to a double\<close>

text \<open>\<open>ilog2\<close> is the binary exponent, and \<open>round_half_even\<close> rounds to a nearest integer.\<close>

lemma two_powi_pos: "0 < (2::rat) powi k"
  by simp

lemma ilog2_bounds:
  assumes "0 < x"
  shows "2 powi (ilog2 x) \<le> x \<and> x < 2 powi (ilog2 x + 1)"
proof -
  obtain n d where q: "quotient_of x = (n, d)" by (cases "quotient_of x")
  have d: "0 < d" using quotient_of_denom_pos [OF q] .
  have x: "x = of_int n / of_int d" using quotient_of_div [OF q] .
  have n: "0 < n"
    using assms d x by (simp add: zero_less_divide_iff)
  define bn where "bn = bitlen n"
  define bd where "bd = bitlen d"
  have bn: "1 \<le> bn" and bd: "1 \<le> bd"
    using n d by (auto simp add: bn_def bd_def bitlen_alt_def)
  have n1: "(2::int) ^ nat (bn - 1) \<le> n" and n2: "n < 2 ^ nat bn"
    using bitlen_bounds [OF n] by (simp_all add: bn_def)
  have d1: "(2::int) ^ nat (bd - 1) \<le> d" and d2: "d < 2 ^ nat bd"
    using bitlen_bounds [OF d] by (simp_all add: bd_def)
  have rn1: "(2::rat) powi (bn - 1) \<le> of_int n"
  proof -
    have "(of_int ((2::int) ^ nat (bn - 1)) :: rat) \<le> of_int n" using n1 by (simp only: of_int_le_iff)
    then show ?thesis using bn by (simp add: power_int_def)
  qed
  have rn2: "(of_int n :: rat) < 2 powi bn"
  proof -
    have "(of_int n :: rat) < of_int ((2::int) ^ nat bn)" using n2 by (simp only: of_int_less_iff)
    then show ?thesis using bn by (simp add: power_int_def)
  qed
  have rd1: "(2::rat) powi (bd - 1) \<le> of_int d"
  proof -
    have "(of_int ((2::int) ^ nat (bd - 1)) :: rat) \<le> of_int d" using d1 by (simp only: of_int_le_iff)
    then show ?thesis using bd by (simp add: power_int_def)
  qed
  have rd2: "(of_int d :: rat) < 2 powi bd"
  proof -
    have "(of_int d :: rat) < of_int ((2::int) ^ nat bd)" using d2 by (simp only: of_int_less_iff)
    then show ?thesis using bd by (simp add: power_int_def)
  qed
  have dpos: "(0::rat) < of_int d" using d by simp
  have npos: "(0::rat) < of_int n" using n by simp
  have upper: "x < 2 powi (bn - bd + 1)"
  proof -
    have "x * of_int d = of_int n" using x dpos by simp
    also have "\<dots> < 2 powi bn" by (rule rn2)
    also have "\<dots> = 2 powi (bn - bd + 1) * 2 powi (bd - 1)"
      by (simp flip: power_int_add)
    also have "\<dots> \<le> 2 powi (bn - bd + 1) * of_int d"
      using rd1 by (intro mult_left_mono) simp_all
    finally show ?thesis using dpos by (simp only: mult_less_cancel_right_pos)
  qed
  have lower: "2 powi (bn - bd - 1) < x"
  proof -
    have "(2::rat) powi (bn - bd - 1) * of_int d < 2 powi (bn - bd - 1) * 2 powi bd"
      using rd2 by (intro mult_strict_left_mono) simp_all
    also have "\<dots> = 2 powi (bn - 1)" by (simp flip: power_int_add)
    also have "\<dots> \<le> of_int n" by (rule rn1)
    also have "\<dots> = x * of_int d" using x dpos by simp
    finally show ?thesis using dpos by (simp only: mult_less_cancel_right_pos)
  qed
  show ?thesis
  proof (cases "2 powi (bn - bd) \<le> x")
    case True
    then have "ilog2 x = bn - bd" using q by (simp add: ilog2_def bn_def bd_def)
    then show ?thesis using True upper by simp
  next
    case False
    then have "ilog2 x = bn - bd - 1" using q by (simp add: ilog2_def bn_def bd_def)
    then show ?thesis using False lower by simp
  qed
qed

lemma ilog2_less:
  assumes "0 < x" and "x < 2 powi k"
  shows "ilog2 x < k"
proof (rule ccontr)
  assume "\<not> ilog2 x < k"
  then have "(2::rat) powi k \<le> 2 powi (ilog2 x)" by (intro power_int_increasing) simp_all
  then show False using ilog2_bounds [OF assms(1)] assms(2) by simp
qed

lemma ilog2_ge:
  assumes "0 < x" and "2 powi k \<le> x"
  shows "k \<le> ilog2 x"
proof (rule ccontr)
  assume "\<not> k \<le> ilog2 x"
  then have "(2::rat) powi (ilog2 x + 1) \<le> 2 powi k" by (intro power_int_increasing) simp_all
  then show False using ilog2_bounds [OF assms(1)] assms(2) by simp
qed

lemma ilog2_zero: "ilog2 0 < 1024"
  by code_simp

lemma round_half_even_error: "\<bar>of_int (round_half_even y) - y\<bar> \<le> 1 / 2"
proof -
  have "of_int \<lfloor>y\<rfloor> \<le> y" "y < of_int \<lfloor>y\<rfloor> + 1" by linarith+
  then show ?thesis by (auto simp add: round_half_even_def Let_def)
qed

lemma round_half_even_int: "round_half_even (of_int k) = k"
  by (simp add: round_half_even_def)

lemma round_half_even_le:
  assumes "y \<le> of_int k"
  shows "round_half_even y \<le> k"
proof (cases "\<lfloor>y\<rfloor> = k")
  case True
  then have "y = of_int k" using assms by (metis floor_le_iff le_floor_iff order_antisym_conv of_int_floor_le)
  then show ?thesis by (simp add: round_half_even_int)
next
  case False
  have "\<lfloor>y\<rfloor> \<le> k" using assms by (simp add: floor_le_iff)
  then have "\<lfloor>y\<rfloor> + 1 \<le> k" using False by simp
  then show ?thesis by (auto simp add: round_half_even_def Let_def)
qed

lemma round_half_even_ge:
  assumes "of_int k \<le> y"
  shows "k \<le> round_half_even y"
proof -
  have "k \<le> \<lfloor>y\<rfloor>" using assms by (simp add: le_floor_iff)
  then show ?thesis by (auto simp add: round_half_even_def Let_def)
qed

text \<open>
  Rounding to a double: a value up to an integer below \<open>2\<^sup>5\<^sup>3\<close> is not rounded beyond it,
  such an integer is a double, and below \<open>2\<^sup>k\<close> the rounding error is at most \<open>2\<^sup>k\<^sup>-\<^sup>5\<^sup>4\<close>.
\<close>

lemma no_overflow:
  assumes "0 \<le> r" and "r < 2 powi 1024"
  shows "\<not> 1024 \<le> ilog2 r"
proof (cases "r = 0")
  case True
  then show ?thesis using ilog2_zero by simp
next
  case False
  then have "0 < r" using assms(1) by simp
  from ilog2_less [OF this assms(2)] show ?thesis by simp
qed

lemma pos_double_le_int:
  assumes "0 < x" and "x \<le> of_int n" and "n < 2 ^ 53"
  shows "\<exists>r. pos_double x = Num r \<and> 0 \<le> r \<and> r \<le> of_int n"
proof -
  define e where "e = max (ilog2 x) (- 1022)"
  define u :: rat where "u = 2 powi (e - 52)"
  define m where "m = round_half_even (x / u)"
  define j where "j = nat (52 - e)"
  have "(of_int n :: rat) < of_int (2 ^ 53)" using assms(3) by (simp only: of_int_less_iff)
  then have "x < 2 powi 53" using assms(2) by simp
  then have "ilog2 x < 53" by (rule ilog2_less [OF assms(1)])
  then have e: "e \<le> 52" by (simp add: e_def)
  have upos: "0 < u" by (simp add: u_def)
  have "u = 2 powi (- int j)" using e by (simp add: u_def j_def)
  then have u: "u = 1 / 2 ^ j" by (simp add: power_int_minus field_simps)
  have xu: "x / u = x * 2 ^ j" by (simp add: u)
  have "x * 2 ^ j \<le> of_int n * 2 ^ j" using assms(2) by simp
  then have "x / u \<le> of_int (n * 2 ^ j)" by (simp add: xu)
  then have m1: "m \<le> n * 2 ^ j" unfolding m_def by (rule round_half_even_le)
  have "of_int 0 \<le> x / u" using assms(1) upos by simp
  then have m0: "0 \<le> m" unfolding m_def by (rule round_half_even_ge)
  define r where "r = of_int m * u"
  have r0: "0 \<le> r" using m0 upos by (simp add: r_def)
  have "(of_int m :: rat) \<le> of_int (n * 2 ^ j)" using m1 by (simp only: of_int_le_iff)
  then have "of_int m * u \<le> of_int (n * 2 ^ j) * u" using upos by (simp only: mult_le_cancel_right_pos)
  then have r1: "r \<le> of_int n" by (simp add: r_def u)
  have "r < 2 powi 1024"
  proof -
    have "(of_int n :: rat) < of_int (2 ^ 53)" using assms(3) by (simp only: of_int_less_iff)
    also have "\<dots> = 2 powi 53" by simp
    also have "\<dots> \<le> 2 powi 1024" by (intro power_int_increasing) simp_all
    finally show ?thesis using r1 by simp
  qed
  then have "\<not> 1024 \<le> ilog2 r" using r0 by (intro no_overflow)
  then have "pos_double x = Num r"
    by (simp add: pos_double_def Let_def r_def m_def u_def e_def)
  then show ?thesis using r0 r1 by blast
qed

lemma pos_double_int:
  assumes "0 < n" and "n < 2 ^ 53"
  shows "pos_double (of_int n) = Num (of_int n)"
proof -
  define x :: rat where "x = of_int n"
  define e where "e = max (ilog2 x) (- 1022)"
  define u :: rat where "u = 2 powi (e - 52)"
  define m where "m = round_half_even (x / u)"
  define j where "j = nat (52 - e)"
  have xpos: "0 < x" using assms(1) by (simp add: x_def)
  have "(of_int n :: rat) < of_int (2 ^ 53)" using assms(2) by (simp only: of_int_less_iff)
  then have x53: "x < 2 powi 53" by (simp add: x_def)
  then have "ilog2 x < 53" by (rule ilog2_less [OF xpos])
  then have e: "e \<le> 52" by (simp add: e_def)
  have "u = 2 powi (- int j)" using e by (simp add: u_def j_def)
  then have u: "u = 1 / 2 ^ j" by (simp add: power_int_minus field_simps)
  have "x / u = of_int (n * 2 ^ j)" by (simp add: u x_def)
  then have m: "m = n * 2 ^ j" unfolding m_def by (simp only: round_half_even_int)
  have r: "of_int m * u = x" by (simp add: m u x_def)
  have "x < 2 powi 1024"
  proof -
    have "(2::rat) powi 53 \<le> 2 powi 1024" by (intro power_int_increasing) simp_all
    then show ?thesis using x53 by simp
  qed
  then have "\<not> 1024 \<le> ilog2 x" using xpos by (intro no_overflow) simp_all
  then have "pos_double x = Num x"
    using r by (simp add: pos_double_def Let_def m_def u_def e_def)
  then show ?thesis by (simp add: x_def)
qed

lemma to_double_int:
  assumes "0 \<le> n" and "n < 2 ^ 53"
  shows "to_double (of_int n) = Num (of_int n)"
proof (cases "n = 0")
  case True
  then show ?thesis by (simp add: to_double_def)
next
  case False
  then have "0 < n" using assms(1) by simp
  then show ?thesis using pos_double_int [OF _ assms(2)] by (simp add: to_double_def)
qed

lemma pos_double_near:
  assumes "0 < x" and "x < 2 powi k" and "- 1021 \<le> k" and "k \<le> 1023"
  shows "\<exists>r. pos_double x = Num r \<and> 0 \<le> r \<and> r \<le> 2 powi k \<and> \<bar>r - x\<bar> \<le> 2 powi (k - 54)"
proof -
  define e where "e = max (ilog2 x) (- 1022)"
  define u :: rat where "u = 2 powi (e - 52)"
  define m where "m = round_half_even (x / u)"
  define j where "j = nat (k - e + 52)"
  define r where "r = of_int m * u"
  have "ilog2 x < k" by (rule ilog2_less [OF assms(1,2)])
  then have e: "e < k" using assms(3) by (simp add: e_def)
  have upos: "0 < u" by (simp add: u_def)
  have "(2::rat) powi k = 2 powi (k - e + 52) * 2 powi (e - 52)"
    by (simp flip: power_int_add)
  also have "(2::rat) powi (k - e + 52) = 2 ^ j" using e by (simp add: j_def power_int_def)
  finally have k: "(2::rat) powi k = 2 ^ j * u" by (simp add: u_def)
  have "x / u < 2 ^ j" using assms(2) upos by (simp add: k pos_divide_less_eq)
  then have "x / u \<le> of_int (2 ^ j)" by simp
  then have m1: "m \<le> 2 ^ j" unfolding m_def by (rule round_half_even_le)
  have "of_int 0 \<le> x / u" using assms(1) upos by simp
  then have m0: "0 \<le> m" unfolding m_def by (rule round_half_even_ge)
  have r0: "0 \<le> r" using m0 upos by (simp add: r_def)
  have "(of_int m :: rat) \<le> of_int (2 ^ j)" using m1 by (simp only: of_int_le_iff)
  then have "of_int m * u \<le> of_int (2 ^ j) * u" using upos by (simp only: mult_le_cancel_right_pos)
  then have r1: "r \<le> 2 powi k" by (simp add: r_def k)
  have "\<bar>of_int m - x / u\<bar> \<le> 1 / 2" unfolding m_def by (rule round_half_even_error)
  then have "\<bar>of_int m - x / u\<bar> * u \<le> 1 / 2 * u" using upos by (simp only: mult_le_cancel_right_pos)
  moreover have "\<bar>of_int m - x / u\<bar> * u = \<bar>r - x\<bar>"
  proof -
    have "\<bar>of_int m - x / u\<bar> * u = \<bar>(of_int m - x / u) * u\<bar>"
      using upos by (simp add: abs_mult)
    also have "(of_int m - x / u) * u = r - x" using upos by (simp add: r_def algebra_simps)
    finally show ?thesis .
  qed
  moreover have "1 / 2 * u = 2 powi (e - 53)"
  proof -
    have "(2::rat) powi (e - 52) = 2 powi (e - 53 + 1)" by simp
    also have "\<dots> = 2 powi (e - 53) * 2" by (subst power_int_add_1) simp_all
    finally show ?thesis by (simp add: u_def)
  qed
  moreover have "(2::rat) powi (e - 53) \<le> 2 powi (k - 54)"
    using e by (intro power_int_increasing) simp_all
  ultimately have near: "\<bar>r - x\<bar> \<le> 2 powi (k - 54)" by simp
  have "r < 2 powi 1024"
  proof -
    have "(2::rat) powi k < 2 powi 1024" using assms(4) by (intro power_int_strict_increasing) simp_all
    then show ?thesis using r1 by simp
  qed
  then have "\<not> 1024 \<le> ilog2 r" using r0 by (intro no_overflow)
  then have "pos_double x = Num r"
    by (simp add: pos_double_def Let_def r_def m_def u_def e_def)
  then show ?thesis using r0 r1 near by blast
qed

text \<open>
  Sums of integers below \<open>2\<^sup>5\<^sup>3\<close> are exact, and the percentage computed with two
  roundings is within \<open>2\<^sup>-\<^sup>4\<^sup>6\<close> of the exact one.
\<close>

lemma js_add_int:
  assumes "0 \<le> a" and "0 \<le> b" and "a + b < 2 ^ 53"
  shows "js_add (Num (of_int a)) (Num (of_int b)) = Num (of_int (a + b))"
proof -
  have "0 \<le> a + b" using assms by simp
  from to_double_int [OF this assms(3)] show ?thesis by simp
qed

lemma foldl_js_add_int:
  assumes "map f cs = map (\<lambda>a. Num (of_int a)) as" and "\<forall>a \<in> set as. 0 \<le> a"
    and "0 \<le> z" and "z + sum_list as < 2 ^ 53"
  shows "foldl (\<lambda>sum c. js_add sum (f c)) (Num (of_int z)) cs = Num (of_int (z + sum_list as))"
  using assms
proof (induction cs arbitrary: z as)
  case Nil
  then show ?case by simp
next
  case (Cons c cs)
  then obtain a as' where as: "as = a # as'" by (cases as) simp_all
  have fc: "f c = Num (of_int a)" and rest: "map f cs = map (\<lambda>a. Num (of_int a)) as'"
    using Cons.prems(1) as by simp_all
  have a0: "0 \<le> a" and as0: "\<forall>a \<in> set as'. 0 \<le> a" using Cons.prems(2) as by simp_all
  have s0: "0 \<le> sum_list as'" using as0 by (simp add: sum_list_nonneg)
  have lt: "z + a < 2 ^ 53" using Cons.prems(4) as s0 by simp
  have step: "js_add (Num (of_int z)) (f c) = Num (of_int (z + a))"
    using js_add_int [OF Cons.prems(3) a0 lt] fc by simp
  have "foldl (\<lambda>sum c. js_add sum (f c)) (Num (of_int (z + a))) cs =
        Num (of_int ((z + a) + sum_list as'))"
    using Cons.prems(3,4) a0 as by (intro Cons.IH [OF rest as0]) simp_all
  then show ?case using step as by (simp add: add.assoc)
qed

lemma floor_near_inner:
  fixes y :: rat
  assumes "\<bar>y - (of_int R + fr)\<bar> < eps" and "eps \<le> fr" and "fr \<le> 1 - eps"
  shows "\<lfloor>y\<rfloor> = R"
proof (rule floor_unique)
  show "of_int R \<le> y" using assms by linarith
  show "y < of_int R + 1" using assms by linarith
qed

lemma floor_near_int:
  fixes y :: rat
  assumes "\<bar>y - of_int R\<bar> < eps" and "eps \<le> 1"
  shows "\<lfloor>y\<rfloor> = R \<or> \<lfloor>y\<rfloor> = R - 1"
proof (cases "of_int R \<le> y")
  case True
  have "y < of_int R + 1" using assms by linarith
  with True have "\<lfloor>y\<rfloor> = R" by (intro floor_unique)
  then show ?thesis by simp
next
  case False
  have "of_int (R - 1) \<le> y" using assms by simp
  moreover have "y < of_int (R - 1) + 1" using False by simp
  ultimately have "\<lfloor>y\<rfloor> = R - 1" by (intro floor_unique)
  then show ?thesis by simp
qed

lemma two_roundings_near:
  fixes p q x :: rat
  assumes "\<bar>p - q * 100\<bar> \<le> a" and "\<bar>q - x\<bar> \<le> b" and "a + 100 * b < eps"
  shows "\<bar>(p + 1 / 2) - (100 * x + 1 / 2)\<bar> < eps"
  using assms by linarith

lemma round_percent:
  assumes "0 \<le> s" and "s \<le> m" and "0 < m" and "m \<le> 2 ^ 45"
  shows "\<exists>t. Math_round (js_mul (js_div (Num (of_int s)) (Num (of_int m))) (Num 100)) =
               Num (of_int t) \<and>
             (t = (200 * s + m) div (2 * m) \<or>
              t = (200 * s + m) div (2 * m) - 1 \<and> 2 * m dvd 200 * s + m)"
proof -
  have mne: "(of_int m :: rat) \<noteq> 0" using assms(3) by simp
  have div: "js_div (Num (of_int s)) (Num (of_int m)) = to_double (of_int s / of_int m)"
    using mne by simp
  consider "s = 0" | "s = m" | "0 < s" "s < m" using assms(1,2) by linarith
  then show ?thesis
  proof cases
    case 1
    have "(200 * s + m) div (2 * m) = 0" using 1 assms(3) by simp
    moreover have "\<lfloor>(1::rat) / 2\<rfloor> = 0" by (rule floor_unique) simp_all
    then have "Math_round (js_mul (js_div (Num (of_int s)) (Num (of_int m))) (Num 100)) =
        Num (of_int 0)"
      using 1 mne by (simp add: to_double_def)
    ultimately show ?thesis by metis
  next
    case 2
    have "(200 * s + m) div (2 * m) = 100"
    proof -
      have "200 * s + m = 100 * (2 * m) + m" using 2 by simp
      then have "(200 * s + m) div (2 * m) = 100 + m div (2 * m)"
        using assms(3) by (metis add.commute div_mult_self2 mult.commute not_less_iff_gr_or_eq mult_eq_0_iff zero_neq_numeral)
      then show ?thesis using assms(3) by simp
    qed
    moreover have "to_double (of_int s / of_int m) = Num 1"
      using 2 mne to_double_int [of 1] by simp
    moreover have "to_double 100 = Num 100" using to_double_int [of 100] by simp
    moreover have "\<lfloor>(201::rat) / 2\<rfloor> = 100" by (rule floor_unique) simp_all
    ultimately have "Math_round (js_mul (js_div (Num (of_int s)) (Num (of_int m))) (Num 100)) =
        Num (of_int ((200 * s + m) div (2 * m)))"
      using div by simp
    then show ?thesis by blast
  next
    case 3
    define x :: rat where "x = of_int s / of_int m"
    define eps :: rat where "eps = 2 powi (- 46)"
    have mpos: "(0::rat) < of_int m" using assms(3) by simp
    have xpos: "0 < x" using 3(1) mpos by (simp add: x_def)
    have "(of_int s :: rat) < of_int m" using 3(2) by (simp only: of_int_less_iff)
    then have "x < 1" using mpos by (simp add: x_def)
    then have x1: "x < 2 powi 0" by simp
    obtain q where q: "pos_double x = Num q" "0 \<le> q" "q \<le> 2 powi 0" "\<bar>q - x\<bar> \<le> 2 powi (0 - 54)"
      using pos_double_near [OF xpos x1] by auto
    have m46: "(of_int m :: rat) \<le> 2 ^ 45"
    proof -
      have "(of_int m :: rat) \<le> of_int (2 ^ 45)" using assms(4) by (simp only: of_int_le_iff)
      then show ?thesis by simp
    qed
    have xlow: "1 / 2 ^ 45 \<le> x"
    proof -
      have "(1::rat) \<le> of_int s" using 3(1) by simp
      then have "1 / of_int m \<le> x" using mpos by (simp add: x_def divide_right_mono)
      moreover have "1 / (2 ^ 45 :: rat) \<le> 1 / of_int m"
        using m46 mpos by (simp add: frac_le)
      ultimately show ?thesis by simp
    qed
    have q54: "\<bar>q - x\<bar> \<le> 1 / 2 ^ 54" using q(4) by simp
    have "(1::rat) / 2 ^ 54 < 1 / 2 ^ 45" by simp
    then have qpos: "0 < q" using xlow q54 by linarith
    have q1: "q \<le> 1" using q(3) by simp
    have ypos: "0 < q * 100" using qpos by simp
    have "q * 100 < 128" using q1 by simp
    then have y7: "q * 100 < 2 powi 7" by simp
    obtain p where p: "pos_double (q * 100) = Num p" "0 \<le> p" "\<bar>p - q * 100\<bar> \<le> 2 powi (7 - 54)"
      using pos_double_near [OF ypos y7] by auto
    have eps: "eps = 1 / 2 ^ 46" by (simp add: eps_def)
    have "2 powi (7 - 54) + 100 * 2 powi (0 - 54) < (2::rat) powi (- 46)"
      by simp
    then have near: "\<bar>(p + 1 / 2) - (100 * x + 1 / 2)\<bar> < eps"
      unfolding eps_def by (rule two_roundings_near [OF p(3) q(4)])
    have val: "Math_round (js_mul (js_div (Num (of_int s)) (Num (of_int m))) (Num 100)) =
        Num (of_int \<lfloor>p + 1 / 2\<rfloor>)"
    proof -
      have "to_double x = Num q" using xpos q(1) by (simp add: to_double_def)
      then have "js_div (Num (of_int s)) (Num (of_int m)) = Num q"
        unfolding x_def by (simp only: div)
      moreover have "js_mul (Num q) (Num 100) = Num p"
        using ypos p(1) by (simp add: to_double_def)
      ultimately show ?thesis by simp
    qed
    define N where "N = 200 * s + m"
    define D where "D = 2 * m"
    define R where "R = N div D"
    define f where "f = N mod D"
    have Dpos: "0 < D" using assms(3) by (simp add: D_def)
    have rDpos: "(0::rat) < of_int D" using Dpos by simp
    have ND: "N = D * R + f" by (simp add: R_def f_def)
    have f0: "0 \<le> f" and fD: "f < D" using Dpos by (simp_all add: f_def)
    have X: "100 * x + 1 / 2 = of_int R + of_int f / of_int D"
    proof -
      have "100 * x + 1 / 2 = of_int N / of_int D"
        using mpos by (simp add: x_def N_def D_def field_simps)
      also have "\<dots> = of_int R + of_int f / of_int D"
        using rDpos by (simp add: ND field_simps)
      finally show ?thesis .
    qed
    have Deps: "eps \<le> 1 / of_int D"
    proof -
      have "(of_int D :: rat) \<le> 2 ^ 46" using m46 by (simp add: D_def)
      then show ?thesis unfolding eps using rDpos by (simp add: frac_le)
    qed
    have eps1: "eps \<le> 1" unfolding eps by simp
    show ?thesis
    proof (cases "f = 0")
      case True
      then have dv: "D dvd N" using ND by simp
      have "100 * x + 1 / 2 = of_int R" using X True by simp
      then have "\<bar>(p + 1 / 2) - of_int R\<bar> < eps" using near by simp
      then have "\<lfloor>p + 1 / 2\<rfloor> = R \<or> \<lfloor>p + 1 / 2\<rfloor> = R - 1"
        using eps1 by (rule floor_near_int)
      then show ?thesis using val dv by (auto simp add: R_def N_def D_def)
    next
      case False
      then have f1: "1 \<le> f" using f0 by simp
      have "(1::rat) \<le> of_int f" using f1 by simp
      then have "1 / of_int D \<le> of_int f / (of_int D :: rat)"
        using rDpos by (simp add: divide_right_mono)
      then have a: "eps \<le> of_int f / (of_int D :: rat)" using Deps by simp
      have "f \<le> D - 1" using fD by simp
      then have "(of_int f :: rat) \<le> of_int (D - 1)" by (simp only: of_int_le_iff)
      then have "of_int f / (of_int D :: rat) \<le> of_int (D - 1) / of_int D"
        using rDpos by (simp add: divide_right_mono)
      also have "\<dots> = 1 - 1 / of_int D" using rDpos by (simp add: field_simps)
      also have "\<dots> \<le> 1 - eps" using Deps by simp
      finally have b: "of_int f / (of_int D :: rat) \<le> 1 - eps" .
      have "\<bar>(p + 1 / 2) - (of_int R + of_int f / of_int D)\<bar> < eps" using near X by simp
      then have "\<lfloor>p + 1 / 2\<rfloor> = R" using a b by (rule floor_near_inner)
      then show ?thesis using val by (auto simp add: R_def N_def D_def)
    qed
  qed
qed


section \<open>Properties of the rubric parser\<close>

text \<open>
  What the matcher of the rubric's regular expression returns on a line that is cut
  at its first parenthesised percentage.
\<close>

lemma lparen_not_space: "\<not> is_space 0x28" and lparen_not_digit: "\<not> is_digit 0x28"
  and percent_not_digit: "\<not> is_digit 0x25"
  by (simp_all add: is_space_def is_line_terminator_def is_digit_def)

lemma line_terminator_space: "is_line_terminator c \<Longrightarrow> is_space c"
  by (simp add: is_space_def)

lemma percentage_Some_iff:
  "percentage s = Some ds \<longleftrightarrow>
     (\<exists>rest. s = [0x28] @ ds @ [0x25, 0x29] @ rest) \<and> ds \<noteq> [] \<and> list_all is_digit ds"
proof
  assume h: "percentage s = Some ds"
  then obtain c r where s: "s = c # r" by (cases s) (simp_all add: percentage_def)
  from h s have c: "c = 0x28" and ds: "ds = takeWhile is_digit r" "ds \<noteq> []"
    and t: "take 2 (dropWhile is_digit r) = [0x25, 0x29]"
    by (auto simp add: percentage_def lit_def split: if_splits)
  from t have "dropWhile is_digit r = [0x25, 0x29] @ drop 2 (dropWhile is_digit r)"
    by (metis append_take_drop_id)
  then have "r = ds @ [0x25, 0x29] @ drop 2 (dropWhile is_digit r)"
    using ds(1) by (metis takeWhile_dropWhile_id)
  moreover have "list_all is_digit ds"
    using ds(1) by (simp add: list_all_iff) (meson set_takeWhileD)
  ultimately show "(\<exists>rest. s = [0x28] @ ds @ [0x25, 0x29] @ rest) \<and> ds \<noteq> [] \<and> list_all is_digit ds"
    using s c ds(2) by auto
next
  assume "(\<exists>rest. s = [0x28] @ ds @ [0x25, 0x29] @ rest) \<and> ds \<noteq> [] \<and> list_all is_digit ds"
  then obtain rest where s: "s = 0x28 # (ds @ 0x25 # 0x29 # rest)" and ds: "ds \<noteq> []" "list_all is_digit ds"
    by auto
  have tw: "takeWhile is_digit (ds @ 0x25 # 0x29 # rest) = ds"
    using ds(2) percent_not_digit by (simp add: list_all_iff takeWhile_append2)
  have dw: "dropWhile is_digit (ds @ 0x25 # 0x29 # rest) = 0x25 # 0x29 # rest"
    using ds(2) percent_not_digit by (simp add: list_all_iff dropWhile_append2)
  show "percentage s = Some ds"
    using s ds(1) tw dw by (simp add: percentage_def lit_def)
qed

lemma percentage_hd: "percentage s = Some ds \<Longrightarrow> \<exists>r. s = 0x28 # r"
  by (auto simp add: percentage_Some_iff)

lemma spaces_percentage_hit:
  assumes "list_all is_space b" and "percentage occ = Some ds"
  shows "spaces_percentage (b @ occ) = Some ds"
proof -
  obtain r where occ: "occ = 0x28 # r" using percentage_hd [OF assms(2)] by blast
  have "dropWhile is_space (b @ occ) = occ"
    using assms(1) occ lparen_not_space by (simp add: list_all_iff dropWhile_append2)
  then show ?thesis using assms(2) by (simp add: spaces_percentage_def)
qed

lemma spaces_percentage_miss:
  assumes "\<not> list_all is_space b"
    and "\<forall>a' b'. b = a' @ b' \<and> b' \<noteq> [] \<longrightarrow> percentage (b' @ occ) = None"
  shows "spaces_percentage (b @ occ) = None"
proof -
  from assms(1) obtain x where x: "x \<in> set b" "\<not> is_space x"
    by (auto simp add: list_all_iff)
  then have d: "dropWhile is_space (b @ occ) = dropWhile is_space b @ occ"
    by (simp add: dropWhile_append1)
  have ne: "dropWhile is_space b \<noteq> []"
    using x by (auto simp add: dropWhile_eq_Nil_conv)
  have "b = takeWhile is_space b @ dropWhile is_space b" by simp
  with assms(2) ne have "percentage (dropWhile is_space b @ occ) = None" by blast
  then show ?thesis using d by (simp add: spaces_percentage_def)
qed

lemma lazy_prefix_now:
  "spaces_percentage s = Some ds \<Longrightarrow> lazy_prefix acc s = Some (acc, ds)"
  by (cases s) simp_all

lemma lazy_prefix_hit:
  assumes "\<forall>c \<in> set v. \<not> is_line_terminator c" and "list_all is_space w"
    and "v = [] \<or> \<not> is_space (last v)" and "percentage occ = Some ds"
    and "\<forall>a' b'. v @ w = a' @ b' \<and> b' \<noteq> [] \<longrightarrow> percentage (b' @ occ) = None"
  shows "lazy_prefix acc (v @ w @ occ) = Some (acc @ v, ds)"
  using assms
proof (induction v arbitrary: acc)
  case Nil
  then show ?case by (simp add: lazy_prefix_now spaces_percentage_hit)
next
  case (Cons c v)
  have nsp: "\<not> list_all is_space ((c # v) @ w)"
    using Cons.prems(3) by (auto simp add: list_all_iff split: if_splits)
  have "spaces_percentage (((c # v) @ w) @ occ) = None"
    by (rule spaces_percentage_miss [OF nsp Cons.prems(5)])
  then have miss: "spaces_percentage (c # v @ w @ occ) = None" by simp
  have v': "v = [] \<or> \<not> is_space (last v)" using Cons.prems(3) by (auto split: if_splits)
  have f': "\<forall>a' b'. v @ w = a' @ b' \<and> b' \<noteq> [] \<longrightarrow> percentage (b' @ occ) = None"
  proof (intro allI impI)
    fix a' b' assume "v @ w = a' @ b' \<and> b' \<noteq> []"
    then have "(c # v) @ w = (c # a') @ b' \<and> b' \<noteq> []" by simp
    then show "percentage (b' @ occ) = None" using Cons.prems(5) by blast
  qed
  have "lazy_prefix (acc @ [c]) (v @ w @ occ) = Some ((acc @ [c]) @ v, ds)"
    using Cons.IH [OF _ Cons.prems(2) v' Cons.prems(4) f'] Cons.prems(1) by simp
  then show ?case using miss Cons.prems(1) by simp
qed

lemma lazy_prefix_miss:
  assumes "is_line_terminator t"
    and "\<forall>a' b'. b @ [t] = a' @ b' \<and> b' \<noteq> [] \<longrightarrow> spaces_percentage (b' @ x) = None"
  shows "lazy_prefix acc (b @ [t] @ x) = None"
  using assms
proof (induction b arbitrary: acc)
  case Nil
  then have "spaces_percentage ([t] @ x) = None" by blast
  then show ?case using Nil.prems(1) by simp
next
  case (Cons c b)
  have "spaces_percentage (((c # b) @ [t]) @ x) = None"
    using Cons.prems(2) by (metis append_Nil snoc_eq_iff_butlast)
  then have miss: "spaces_percentage (c # b @ [t] @ x) = None" by simp
  have f': "\<forall>a' b'. b @ [t] = a' @ b' \<and> b' \<noteq> [] \<longrightarrow> spaces_percentage (b' @ x) = None"
  proof (intro allI impI)
    fix a' b' assume "b @ [t] = a' @ b' \<and> b' \<noteq> []"
    then have "(c # b) @ [t] = (c # a') @ b' \<and> b' \<noteq> []" by simp
    then show "spaces_percentage (b' @ x) = None" using Cons.prems(2) by blast
  qed
  show ?case using miss Cons.IH [OF Cons.prems(1) f'] by simp
qed

lemma rubric_match_first:
  assumes "u = [] \<or> is_line_terminator (last u)"
    and "\<forall>c \<in> set v. \<not> is_line_terminator c"
    and "u @ v = [] \<or> \<not> is_space (last (u @ v))"
    and "list_all is_space w" and "percentage occ = Some ds"
    and "\<forall>a' b'. u @ v @ w = a' @ b' \<and> b' \<noteq> [] \<longrightarrow> percentage (b' @ occ) = None"
  shows "rubric_match (u @ v @ w @ occ) = Some (v, ds)"
  using assms
proof (induction u)
  case Nil
  have v: "v = [] \<or> \<not> is_space (last v)" using Nil.prems(3) by simp
  have f: "\<forall>a' b'. v @ w = a' @ b' \<and> b' \<noteq> [] \<longrightarrow> percentage (b' @ occ) = None"
    using Nil.prems(6) by simp
  have hit: "lazy_prefix [] (v @ w @ occ) = Some ([] @ v, ds)"
    by (rule lazy_prefix_hit [OF Nil.prems(2) Nil.prems(4) v Nil.prems(5) f])
  obtain r where "occ = 0x28 # r" using percentage_hd [OF Nil.prems(5)] by blast
  then obtain c s where "v @ w @ occ = c # s" by (cases "v @ w @ occ") simp_all
  then show ?case using hit by simp
next
  case (Cons c u)
  have lt: "is_line_terminator (last (c # u))" using Cons.prems(1) by simp
  have vne: "v \<noteq> []"
  proof
    assume "v = []"
    then have "\<not> is_space (last (c # u))" using Cons.prems(3) by simp
    then show False using lt line_terminator_space by blast
  qed
  then have vlast: "\<not> is_space (last v)" using Cons.prems(3) by simp
  obtain b t where bt: "c # u = b @ [t]" and t: "t = last (c # u)"
    by (metis append_butlast_last_id list.distinct(1))
  have "lazy_prefix [] (b @ [t] @ (v @ w @ occ)) = None"
  proof (rule lazy_prefix_miss)
    show "is_line_terminator t" using lt t by simp
  next
    show "\<forall>a' b'. b @ [t] = a' @ b' \<and> b' \<noteq> [] \<longrightarrow> spaces_percentage (b' @ v @ w @ occ) = None"
    proof (intro allI impI)
    fix a' b' assume h: "b @ [t] = a' @ b' \<and> b' \<noteq> []"
    then have cu: "c # u = a' @ b'" using bt by simp
    have nsp: "\<not> list_all is_space (b' @ v @ w)"
      using vne vlast by (auto simp add: list_all_iff)
    have "\<forall>a'' b''. b' @ v @ w = a'' @ b'' \<and> b'' \<noteq> [] \<longrightarrow> percentage (b'' @ occ) = None"
    proof (intro allI impI)
      fix a'' b'' assume "b' @ v @ w = a'' @ b'' \<and> b'' \<noteq> []"
      then have "(c # u) @ v @ w = (a' @ a'') @ b'' \<and> b'' \<noteq> []" using cu by simp
      then show "percentage (b'' @ occ) = None" using Cons.prems(6) by blast
    qed
    from spaces_percentage_miss [OF nsp this]
    show "spaces_percentage (b' @ v @ w @ occ) = None" by simp
    qed
  qed
  then have "lazy_prefix [] ((b @ [t]) @ v @ w @ occ) = None" by (simp del: lazy_prefix.simps)
  then have miss': "lazy_prefix [] (c # (u @ v @ w @ occ)) = None"
    using bt by (metis append_Cons)
  have u1: "u = [] \<or> is_line_terminator (last u)" using Cons.prems(1) by (auto split: if_splits)
  have u3: "u @ v = [] \<or> \<not> is_space (last (u @ v))" using vne vlast by simp
  have u6: "\<forall>a' b'. u @ v @ w = a' @ b' \<and> b' \<noteq> [] \<longrightarrow> percentage (b' @ occ) = None"
  proof (intro allI impI)
    fix a' b' assume "u @ v @ w = a' @ b' \<and> b' \<noteq> []"
    then have "(c # u) @ v @ w = (c # a') @ b' \<and> b' \<noteq> []" by simp
    then show "percentage (b' @ occ) = None" using Cons.prems(6) by blast
  qed
  have "rubric_match (u @ v @ w @ occ) = Some (v, ds)"
    by (rule Cons.IH [OF u1 Cons.prems(2) u3 Cons.prems(4) Cons.prems(5) u6])
  then show ?case using miss' by (simp del: lazy_prefix.simps)
qed

lemma lazy_prefix_none:
  assumes "\<forall>a b. s = a @ b \<longrightarrow> percentage b = None"
  shows "lazy_prefix acc s = None"
  using assms
proof (induction s arbitrary: acc)
  case Nil
  then show ?case by (simp add: spaces_percentage_def)
next
  case (Cons c s)
  have "c # s = takeWhile is_space (c # s) @ dropWhile is_space (c # s)" by simp
  then have "percentage (dropWhile is_space (c # s)) = None" using Cons.prems by blast
  then have miss: "spaces_percentage (c # s) = None" by (simp add: spaces_percentage_def)
  have "\<forall>a b. s = a @ b \<longrightarrow> percentage b = None"
  proof (intro allI impI)
    fix a b assume "s = a @ b"
    then have "c # s = (c # a) @ b" by simp
    then show "percentage b = None" using Cons.prems by blast
  qed
  then show ?case using miss Cons.IH by simp
qed

lemma rubric_match_none:
  assumes "\<forall>a b. s = a @ b \<longrightarrow> percentage b = None"
  shows "rubric_match s = None"
  using assms
proof (induction s)
  case Nil
  then show ?case by (simp add: spaces_percentage_def)
next
  case (Cons c s)
  have "\<forall>a b. s = a @ b \<longrightarrow> percentage b = None"
  proof (intro allI impI)
    fix a b assume "s = a @ b"
    then have "c # s = (c # a) @ b" by simp
    then show "percentage b = None" using Cons.prems by blast
  qed
  then show ?case using lazy_prefix_none [OF Cons.prems] Cons.IH by simp
qed

lemma percentage_at_iff:
  "percentage_at line i ds \<longleftrightarrow> i \<le> length line \<and> percentage (drop i line) = Some ds"
  by (auto simp add: percentage_at_def percentage_Some_iff lit_def)

text \<open>Splitting off the longest suffix whose elements satisfy \<open>P\<close>.\<close>

lemma split_suffix:
  "xs = rev (dropWhile P (rev xs)) @ rev (takeWhile P (rev xs)) \<and>
   list_all P (rev (takeWhile P (rev xs))) \<and>
   (rev (dropWhile P (rev xs)) = [] \<or> \<not> P (last (rev (dropWhile P (rev xs)))))"
proof -
  have "rev xs = takeWhile P (rev xs) @ dropWhile P (rev xs)" by simp
  then have "rev (rev xs) = rev (dropWhile P (rev xs)) @ rev (takeWhile P (rev xs))"
    by (metis rev_append)
  then have a: "xs = rev (dropWhile P (rev xs)) @ rev (takeWhile P (rev xs))" by simp
  have b: "list_all P (rev (takeWhile P (rev xs)))"
    by (simp add: list_all_iff) (meson set_takeWhileD)
  have c: "rev (dropWhile P (rev xs)) = [] \<or> \<not> P (last (rev (dropWhile P (rev xs))))"
  proof (cases "dropWhile P (rev xs) = []")
    case True
    then show ?thesis by simp
  next
    case False
    then have "\<not> P (hd (dropWhile P (rev xs)))" by (rule hd_dropWhile)
    then show ?thesis using False by (simp add: last_rev)
  qed
  show ?thesis using a b c by blast
qed

lemma parse_line_first:
  assumes "first_percentage line i ds"
  shows "parse_line line = Some \<lparr>Criterion.name = name_before (take i line), weight = parseInt ds\<rparr>"
proof -
  define pre where "pre = take i line"
  define occ where "occ = drop i line"
  define uv where "uv = rev (dropWhile is_space (rev pre))"
  define w where "w = rev (takeWhile is_space (rev pre))"
  define u where "u = rev (dropWhile (\<lambda>c. \<not> is_line_terminator c) (rev uv))"
  define v where "v = rev (takeWhile (\<lambda>c. \<not> is_line_terminator c) (rev uv))"
  have i: "i \<le> length line" and occ: "percentage occ = Some ds"
    using assms by (simp_all add: first_percentage_def percentage_at_iff occ_def)
  have line: "line = pre @ occ" by (simp add: pre_def occ_def)
  have pre: "pre = uv @ w" and w: "list_all is_space w"
    and uv: "uv = [] \<or> \<not> is_space (last uv)"
    using split_suffix [of pre is_space] by (simp_all add: uv_def w_def)
  have uv': "uv = u @ v" and v: "list_all (\<lambda>c. \<not> is_line_terminator c) v"
    and u: "u = [] \<or> \<not> \<not> is_line_terminator (last u)"
    using split_suffix [of uv "\<lambda>c. \<not> is_line_terminator c"] by (simp_all add: u_def v_def)
  have first: "\<forall>a' b'. u @ v @ w = a' @ b' \<and> b' \<noteq> [] \<longrightarrow> percentage (b' @ occ) = None"
  proof (intro allI impI)
    fix a' b' assume h: "u @ v @ w = a' @ b' \<and> b' \<noteq> []"
    then have p: "pre = a' @ b'" using pre uv' by simp
    have "length pre = i" using i by (simp add: pre_def)
    then have j: "length a' < i" using p h by (cases b') auto
    have "drop (length a') line = b' @ occ" using line p by simp
    moreover have "\<forall>ds'. \<not> percentage_at line (length a') ds'"
      using assms j by (simp add: first_percentage_def)
    ultimately show "percentage (b' @ occ) = None"
      using j i by (cases "percentage (b' @ occ)") (simp_all add: percentage_at_iff)
  qed
  have "rubric_match (u @ v @ w @ occ) = Some (v, ds)"
    using rubric_match_first [OF _ _ _ w occ first, of ] u v uv uv'
    by (simp add: list_all_iff)
  moreover have "line = u @ v @ w @ occ" using line pre uv' by simp
  moreover have "name_before pre = trim v"
    by (simp add: name_before_def v_def uv_def)
  ultimately show ?thesis
    by (simp add: parse_line_def pre_def)
qed

lemma parse_line_none:
  assumes "\<not> (\<exists>i ds. percentage_at line i ds)"
  shows "parse_line line = None"
proof -
  have "\<forall>a b. line = a @ b \<longrightarrow> percentage b = None"
  proof (intro allI impI)
    fix a b assume l: "line = a @ b"
    then have "drop (length a) line = b" "length a \<le> length line" by simp_all
    then show "percentage b = None"
      using assms by (cases "percentage b") (auto simp add: percentage_at_iff)
  qed
  then show ?thesis by (simp add: parse_line_def rubric_match_none)
qed

text \<open>Trimming, \<open>parseInt\<close> on a string of digits, and the split into lines.\<close>

lemma dropWhile_rev_dropWhile:
  "dropWhile P (rev (dropWhile P (rev s))) = rev (dropWhile P (rev (dropWhile P s)))"
proof (cases "\<forall>x \<in> set s. P x")
  case True
  then have e1: "dropWhile P s = []" and e2: "dropWhile P (rev s) = []"
    by (simp_all add: dropWhile_eq_Nil_conv)
  show ?thesis unfolding e1 e2 by simp
next
  case False
  define a where "a = takeWhile P s"
  define m where "m = dropWhile P s"
  have s: "s = a @ m" by (simp add: a_def m_def)
  have a: "\<forall>x \<in> set a. P x" unfolding a_def by (meson set_takeWhileD)
  have mne: "m \<noteq> []" using False by (simp add: m_def)
  then have hd: "\<not> P (hd m)" unfolding m_def by (rule hd_dropWhile)
  have hdm: "hd m \<in> set (rev m)" using mne by simp
  have "dropWhile P (rev s) = dropWhile P (rev m) @ rev a"
    using hdm hd by (simp add: s dropWhile_append1)
  then have l: "rev (dropWhile P (rev s)) = a @ rev (dropWhile P (rev m))" by simp
  obtain y ys where m: "m = y # ys" using mne by (cases m) simp_all
  have "dropWhile P (rev m) = dropWhile P (rev ys) @ [y]"
    using hd m by (simp add: dropWhile_append)
  then have "rev (dropWhile P (rev m)) = y # rev (dropWhile P (rev ys))" by simp
  then have "dropWhile P (rev (dropWhile P (rev m))) = rev (dropWhile P (rev m))"
    using hd m by simp
  then have "dropWhile P (a @ rev (dropWhile P (rev m))) = rev (dropWhile P (rev m))"
    using a by (simp add: dropWhile_append2)
  then show ?thesis using l by (simp add: m_def)
qed

lemma trim_dropWhile_rev: "trim (rev (dropWhile is_space (rev s))) = trim s"
proof -
  show ?thesis
    unfolding trim_def by (simp add: dropWhile_rev_dropWhile)
qed

lemma name_before_plain:
  assumes "\<forall>c \<in> set pre. \<not> is_line_terminator c"
  shows "name_before pre = trim pre"
proof -
  have "\<forall>c \<in> set (dropWhile is_space (rev pre)). \<not> is_line_terminator c"
    using assms by (metis set_dropWhileD set_rev)
  then have tw: "takeWhile (\<lambda>c. \<not> is_line_terminator c) (dropWhile is_space (rev pre)) =
             dropWhile is_space (rev pre)"
    by (simp add: takeWhile_eq_all_conv)
  show ?thesis unfolding name_before_def tw by (rule trim_dropWhile_rev)
qed

lemma digit_not_space: "is_digit c \<Longrightarrow> \<not> is_space c"
  and digit_not_sign: "is_digit c \<Longrightarrow> c \<noteq> 0x2D \<and> c \<noteq> 0x2B"
  by (auto simp add: is_digit_def is_space_def is_line_terminator_def word_le_def)

lemma parseInt_digits:
  assumes "ds \<noteq> []" and "list_all is_digit ds"
  shows "parseInt ds = to_double (of_int (digits_value ds))"
proof -
  obtain d r where ds: "ds = d # r" using assms(1) by (cases ds) simp_all
  have d: "is_digit d" using assms(2) ds by simp
  have a: "dropWhile is_space ds = ds" using d ds digit_not_space by simp
  have b: "take 1 ds \<noteq> lit ''-''" "take 1 ds \<noteq> lit ''+''"
    using ds digit_not_sign [OF d] by (simp_all add: lit_def)
  have c: "takeWhile is_digit ds = ds" using assms(2) by (simp add: takeWhile_eq_all_conv list_all_iff)
  have s2: "(if take 1 ds = lit ''-'' \<or> take 1 ds = lit ''+'' then drop 1 ds else ds) = ds"
    using b by simp
  show ?thesis unfolding parseInt_def Let_def a s2 c using b assms(1) by simp
qed

lemma digits_value_nonneg_aux:
  "list_all is_digit ds \<Longrightarrow> 0 \<le> v \<Longrightarrow> 0 \<le> foldl (\<lambda>v c. 10 * v + (uint c - 48)) v ds"
proof (induction ds arbitrary: v)
  case Nil
  then show ?case by simp
next
  case (Cons c ds)
  have "48 \<le> uint c" using Cons.prems(1) by (simp add: is_digit_def word_le_def)
  then have "0 \<le> 10 * v + (uint c - 48)" using Cons.prems(2) by simp
  then show ?case using Cons by simp
qed

lemma digits_value_nonneg: "list_all is_digit ds \<Longrightarrow> 0 \<le> digits_value ds"
  unfolding digits_value_def by (rule digits_value_nonneg_aux) simp_all

lemma parseInt_exact:
  assumes "ds \<noteq> []" and "list_all is_digit ds" and "digits_value ds < 2 ^ 53"
  shows "parseInt ds = Num (of_int (digits_value ds))"
  using parseInt_digits [OF assms(1,2)] to_double_int [OF digits_value_nonneg [OF assms(2)] assms(3)]
  by simp

lemma split_lines_nonempty: "split_lines s \<noteq> []"
  by (induction s) (auto split: list.splits)

lemma split_lines_no_newline: "\<forall>l \<in> set (split_lines s). 0x0A \<notin> set l"
proof (induction s)
  case Nil
  then show ?case by simp
next
  case (Cons c s)
  then show ?case by (cases "split_lines s") auto
qed

lemma split_lines_join:
  "s = concat (map (\<lambda>l. l @ [0x0A]) (butlast (split_lines s))) @ last (split_lines s)"
proof (induction s)
  case Nil
  then show ?case by simp
next
  case (Cons c s)
  obtain l ls where sp: "split_lines s = l # ls"
    using split_lines_nonempty [of s] by (cases "split_lines s") simp_all
  show ?case
  proof (cases "c = 0x0A")
    case True
    then show ?thesis using Cons sp by simp
  next
    case False
    then show ?thesis using Cons sp by (cases ls) simp_all
  qed
qed


lemma first_exists:
  assumes "\<exists>i ds. P (i::nat) ds"
  shows "\<exists>i ds. P i ds \<and> (\<forall>j < i. \<forall>ds'. \<not> P j ds')"
proof -
  define Q where "Q i = (\<exists>ds. P i ds)" for i
  have "\<exists>i. Q i" using assms by (auto simp add: Q_def)
  then have a: "Q (LEAST i. Q i)" by (rule LeastI_ex)
  have b: "\<forall>j < (LEAST i. Q i). \<not> Q j" using not_less_Least by blast
  show ?thesis using a b unfolding Q_def by blast
qed

lemma map_the_filter_concat:
  "map the (filter (\<lambda>item. item \<noteq> None) (map f xs)) =
     concat (map (\<lambda>x. case f x of None \<Rightarrow> [] | Some c \<Rightarrow> [c]) xs)"
  by (induction xs) (auto split: option.splits)

lemma first_percentage_exists:
  "\<exists>i ds. percentage_at line i ds \<Longrightarrow> \<exists>i ds. first_percentage line i ds"
  unfolding first_percentage_def by (rule first_exists)

lemma parse_line_None_iff: "parse_line line = None \<longleftrightarrow> \<not> (\<exists>i ds. percentage_at line i ds)"
proof
  assume n: "parse_line line = None"
  show "\<not> (\<exists>i ds. percentage_at line i ds)"
  proof
    assume "\<exists>i ds. percentage_at line i ds"
    then obtain i ds where "first_percentage line i ds" using first_percentage_exists by blast
    then show False using n parse_line_first by simp
  qed
next
  assume "\<not> (\<exists>i ds. percentage_at line i ds)"
  then show "parse_line line = None" by (rule parse_line_none)
qed

lemma first_percentageI:
  assumes "i \<le> length line" and "percentage (drop i line) = Some ds"
    and "list_all (\<lambda>j. percentage (drop j line) = None) [0..<i]"
  shows "first_percentage line i ds"
  using assms by (auto simp add: first_percentage_def percentage_at_iff list_all_iff)

text \<open>
  Claim C1, as amended. \<open>parseRubric\<close> splits the text at the line feeds (the lines hold
  no line feed, and joined by line feeds they give the text back) and returns, in the
  order of the lines, one criterion for each line that holds a parenthesised
  percentage; a line without one gives nothing; nothing looks at the sum of the
  weights. The criterion is read off the first parenthesised percentage of the line.
  Its name is \<open>name_before\<close> of the text in front of it: that text trimmed when it
  holds no carriage return, line separator or paragraph separator, and otherwise only
  what follows the last of these before the end of the name. Its weight is the double
  nearest to the integer the digits denote, which is that integer when it is below
  \<open>2\<^sup>5\<^sup>3\<close>.
\<close>

theorem parseRubric_criteria:
  "split_lines rubricText \<noteq> [] \<and>
   (\<forall>line \<in> set (split_lines rubricText). 0x0A \<notin> set line) \<and>
   rubricText =
     concat (map (\<lambda>line. line @ [0x0A]) (butlast (split_lines rubricText))) @
     last (split_lines rubricText) \<and>
   parseRubric rubricText =
     concat (map (\<lambda>line. case parse_line line of None \<Rightarrow> [] | Some c \<Rightarrow> [c])
               (split_lines rubricText)) \<and>
   (\<forall>line. (parse_line line = None) = (\<not> (\<exists>i ds. percentage_at line i ds))) \<and>
   (\<forall>line. (\<exists>i ds. percentage_at line i ds) \<longrightarrow> (\<exists>i ds. first_percentage line i ds)) \<and>
   (\<forall>line i ds. first_percentage line i ds \<longrightarrow>
      parse_line line =
        Some \<lparr>Criterion.name = name_before (take i line), weight = parseInt ds\<rparr> \<and>
      ((\<forall>c \<in> set (take i line). \<not> is_line_terminator c) \<longrightarrow>
         name_before (take i line) = trim (take i line)) \<and>
      parseInt ds = to_double (of_int (digits_value ds)) \<and>
      (digits_value ds < 2 ^ 53 \<longrightarrow> parseInt ds = Num (of_int (digits_value ds))))"
proof -
  have a: "split_lines rubricText \<noteq> []" by (rule split_lines_nonempty)
  have b: "\<forall>line \<in> set (split_lines rubricText). 0x0A \<notin> set line"
    by (rule split_lines_no_newline)
  have c: "rubricText =
     concat (map (\<lambda>line. line @ [0x0A]) (butlast (split_lines rubricText))) @
     last (split_lines rubricText)"
    by (rule split_lines_join)
  have d: "parseRubric rubricText =
     concat (map (\<lambda>line. case parse_line line of None \<Rightarrow> [] | Some c \<Rightarrow> [c])
               (split_lines rubricText))"
    unfolding parseRubric_def by (rule map_the_filter_concat)
  have e: "\<forall>line. (parse_line line = None) = (\<not> (\<exists>i ds. percentage_at line i ds))"
    using parse_line_None_iff by blast
  have f: "\<forall>line. (\<exists>i ds. percentage_at line i ds) \<longrightarrow> (\<exists>i ds. first_percentage line i ds)"
    using first_percentage_exists by blast
  have g: "parse_line line =
        Some \<lparr>Criterion.name = name_before (take i line), weight = parseInt ds\<rparr> \<and>
      ((\<forall>c \<in> set (take i line). \<not> is_line_terminator c) \<longrightarrow>
         name_before (take i line) = trim (take i line)) \<and>
      parseInt ds = to_double (of_int (digits_value ds)) \<and>
      (digits_value ds < 2 ^ 53 \<longrightarrow> parseInt ds = Num (of_int (digits_value ds)))"
    if fp: "first_percentage line i ds" for line i ds
  proof -
    from fp have ds: "ds \<noteq> []" "list_all is_digit ds"
      by (simp_all add: first_percentage_def percentage_at_def)
    show ?thesis
      using parse_line_first [OF fp] name_before_plain [of "take i line"]
        parseInt_digits [OF ds] parseInt_exact [OF ds]
      by blast
  qed
  show ?thesis using a b c d e f g by blast
qed

text \<open>
  The claim as it was stated fails on a line with a carriage return in front of the
  name, where the name is not the trimmed text before the percentage, and on a
  percentage of sixteen digits, where the weight is not the integer written.
\<close>

theorem parseRubric_criteria_counterexample:
  "parseRubric (lit ''Q1'' @ [0x0D] @ lit ''Ideas (40%)'') =
     [\<lparr>Criterion.name = lit ''Ideas'', weight = Num 40\<rparr>] \<and>
   trim (lit ''Q1'' @ [0x0D] @ lit ''Ideas '') = lit ''Q1'' @ [0x0D] @ lit ''Ideas'' \<and>
   parseRubric (lit ''A (9007199254740993%)'') =
     [\<lparr>Criterion.name = lit ''A'', weight = Num 9007199254740992\<rparr>]"
  by code_simp

text \<open>Three lines: with a carriage return, without one, and without a percentage.\<close>

theorem parseRubric_criteria_witness:
  "first_percentage (lit ''Q1'' @ [0x0D] @ lit ''Ideas (40%)'') 9 (lit ''40'') \<and>
   parse_line (lit ''Q1'' @ [0x0D] @ lit ''Ideas (40%)'') =
     Some \<lparr>Criterion.name = lit ''Ideas'', weight = Num 40\<rparr> \<and>
   first_percentage (lit ''Ideas (40%)'') 6 (lit ''40'') \<and>
   \<not> (\<exists>c \<in> set (take 6 (lit ''Ideas (40%)'')). is_line_terminator c) \<and>
   digits_value (lit ''40'') < 2 ^ 53 \<and>
   parse_line (lit ''Ideas (40%)'') =
     Some \<lparr>Criterion.name = trim (lit ''Ideas ''), weight = Num (of_int 40)\<rparr> \<and>
   \<not> (\<exists>i ds. percentage_at (lit ''No marks'') i ds) \<and>
   parse_line (lit ''No marks'') = None"
proof -
  have f1: "first_percentage (lit ''Q1'' @ [0x0D] @ lit ''Ideas (40%)'') 9 (lit ''40'')"
    by (rule first_percentageI) (simp add: lit_def, code_simp, code_simp)
  have f2: "first_percentage (lit ''Ideas (40%)'') 6 (lit ''40'')"
    by (rule first_percentageI) (simp add: lit_def, code_simp, code_simp)
  have plain: "\<forall>c \<in> set (take 6 (lit ''Ideas (40%)'')). \<not> is_line_terminator c"
    by code_simp
  have small: "digits_value (lit ''40'') < 2 ^ 53" by code_simp
  have "parse_line (lit ''No marks'') = None" by code_simp
  then have none: "\<not> (\<exists>i ds. percentage_at (lit ''No marks'') i ds)"
    using parseRubric_criteria by blast
  have n1: "name_before (take 9 (lit ''Q1'' @ [0x0D] @ lit ''Ideas (40%)'')) = lit ''Ideas''"
    by code_simp
  have v: "parseInt (lit ''40'') = Num 40" by code_simp
  have t: "take 6 (lit ''Ideas (40%)'') = lit ''Ideas ''" by code_simp
  have d: "digits_value (lit ''40'') = 40" by code_simp
  note line = parseRubric_criteria [THEN conjunct2, THEN conjunct2, THEN conjunct2,
      THEN conjunct2, THEN conjunct2, THEN conjunct2, rule_format]
  have r1: "parse_line (lit ''Q1'' @ [0x0D] @ lit ''Ideas (40%)'') =
     Some \<lparr>Criterion.name = lit ''Ideas'', weight = Num 40\<rparr>"
    using line [OF f1] n1 v by simp
  have r2: "parse_line (lit ''Ideas (40%)'') =
     Some \<lparr>Criterion.name = trim (lit ''Ideas ''), weight = Num (of_int 40)\<rparr>"
  proof -
    note l2 = line [OF f2]
    have "parse_line (lit ''Ideas (40%)'') =
        Some \<lparr>Criterion.name = name_before (take 6 (lit ''Ideas (40%)'')),
              weight = parseInt (lit ''40'')\<rparr>"
      using l2 by blast
    moreover have "name_before (take 6 (lit ''Ideas (40%)'')) = trim (take 6 (lit ''Ideas (40%)''))"
      using l2 plain by blast
    moreover have "parseInt (lit ''40'') = Num (of_int (digits_value (lit ''40'')))"
      using l2 small by blast
    ultimately show ?thesis using t d by simp
  qed
  have r3: "parse_line (lit ''No marks'') = None"
    using parseRubric_criteria none by blast
  have plain': "\<not> (\<exists>c \<in> set (take 6 (lit ''Ideas (40%)'')). is_line_terminator c)"
    using plain by blast
  show ?thesis using f1 f2 plain' small none r1 r2 r3 by blast
qed


section \<open>Properties of the grading of a criterion\<close>

text \<open>What the matcher of \<open>/SCORE:\s*(\d+)/i\<close> returns.\<close>

lemma ignore_case_prefix_iff:
  "ignore_case_prefix p s = Some r \<longleftrightarrow>
     (\<exists>kw. s = kw @ r \<and> map canonicalize kw = map canonicalize p)"
proof (induction p s rule: ignore_case_prefix.induct)
  case (1 s)
  then show ?case by auto
next
  case (2 p ps)
  then show ?case by auto
next
  case (3 p ps c cs)
  show ?case
  proof
    assume h: "ignore_case_prefix (p # ps) (c # cs) = Some r"
    then have c: "canonicalize c = canonicalize p" and "ignore_case_prefix ps cs = Some r"
      by (auto split: if_splits)
    then obtain kw where "cs = kw @ r" "map canonicalize kw = map canonicalize ps"
      using 3 by auto
    then have "c # cs = (c # kw) @ r \<and> map canonicalize (c # kw) = map canonicalize (p # ps)"
      using c by simp
    then show "\<exists>kw. c # cs = kw @ r \<and> map canonicalize kw = map canonicalize (p # ps)" by blast
  next
    assume "\<exists>kw. c # cs = kw @ r \<and> map canonicalize kw = map canonicalize (p # ps)"
    then obtain kw where kw: "c # cs = kw @ r" "map canonicalize kw = map canonicalize (p # ps)"
      by blast
    then obtain k kw' where k: "kw = k # kw'" by (cases kw) auto
    then have "k = c" "cs = kw' @ r" "canonicalize k = canonicalize p"
      "map canonicalize kw' = map canonicalize ps"
      using kw by auto
    then show "ignore_case_prefix (p # ps) (c # cs) = Some r"
      using 3 by auto
  qed
qed

lemma canonical_keyword: "map canonicalize (lit ''SCORE:'') = lit ''SCORE:''"
  by (simp add: lit_def canonicalize_def)

lemma keyword_prefix_iff:
  "ignore_case_prefix (lit ''SCORE:'') s = Some r \<longleftrightarrow>
     (\<exists>kw. s = kw @ r \<and> map canonicalize kw = lit ''SCORE:'')"
  using ignore_case_prefix_iff [of "lit ''SCORE:''" s r] by (simp only: canonical_keyword)

lemma score_at_iff:
  "score_at s = Some ds \<longleftrightarrow>
     ds \<noteq> [] \<and> list_all is_digit ds \<and>
     (\<exists>kw sp rest. s = kw @ sp @ ds @ rest \<and> map canonicalize kw = lit ''SCORE:'' \<and>
        list_all is_space sp \<and> (rest = [] \<or> \<not> is_digit (hd rest)))"
proof
  assume h: "score_at s = Some ds"
  then obtain r where r: "ignore_case_prefix (lit ''SCORE:'') s = Some r"
    by (auto simp add: score_at_def split: option.splits)
  then obtain kw where kw: "s = kw @ r" "map canonicalize kw = lit ''SCORE:''"
    unfolding keyword_prefix_iff by blast
  define sp where "sp = takeWhile is_space r"
  define rest where "rest = dropWhile is_digit (dropWhile is_space r)"
  from h r have ds: "ds = takeWhile is_digit (dropWhile is_space r)" "ds \<noteq> []"
    by (auto simp add: score_at_def split: if_splits)
  have "r = sp @ ds @ rest"
    unfolding sp_def rest_def ds(1) by simp
  moreover have "list_all is_space sp" unfolding sp_def
    by (simp add: list_all_iff) (meson set_takeWhileD)
  moreover have "list_all is_digit ds" unfolding ds(1)
    by (simp add: list_all_iff) (meson set_takeWhileD)
  moreover have "rest = [] \<or> \<not> is_digit (hd rest)"
    unfolding rest_def by (metis hd_dropWhile)
  ultimately show "ds \<noteq> [] \<and> list_all is_digit ds \<and>
     (\<exists>kw sp rest. s = kw @ sp @ ds @ rest \<and> map canonicalize kw = lit ''SCORE:'' \<and>
        list_all is_space sp \<and> (rest = [] \<or> \<not> is_digit (hd rest)))"
    using kw ds(2) by blast
next
  assume "ds \<noteq> [] \<and> list_all is_digit ds \<and>
     (\<exists>kw sp rest. s = kw @ sp @ ds @ rest \<and> map canonicalize kw = lit ''SCORE:'' \<and>
        list_all is_space sp \<and> (rest = [] \<or> \<not> is_digit (hd rest)))"
  then obtain kw sp rest where h: "ds \<noteq> []" "list_all is_digit ds" "s = kw @ (sp @ ds @ rest)"
    "map canonicalize kw = lit ''SCORE:''" "list_all is_space sp" "rest = [] \<or> \<not> is_digit (hd rest)"
    by auto
  have p: "ignore_case_prefix (lit ''SCORE:'') s = Some (sp @ ds @ rest)"
    unfolding keyword_prefix_iff using h(3,4) by blast
  obtain d ds' where d: "ds = d # ds'" using h(1) by (cases ds) simp_all
  then have "\<not> is_space d" using h(2) digit_not_space by simp
  then have a: "dropWhile is_space (sp @ ds @ rest) = ds @ rest"
    using h(5) d by (simp add: list_all_iff dropWhile_append2)
  have b: "takeWhile is_digit (ds @ rest) = ds"
  proof (cases rest)
    case Nil
    then show ?thesis using h(2) by (simp add: list_all_iff takeWhile_eq_all_conv)
  next
    case (Cons x xs)
    then have "\<not> is_digit x" using h(6) by simp
    then show ?thesis using h(2) Cons by (simp add: list_all_iff takeWhile_append2)
  qed
  show "score_at s = Some ds"
    by (simp add: score_at_def p a b h(1))
qed

lemma score_in_iff:
  "score_in s i ds \<longleftrightarrow> i \<le> length s \<and> score_at (drop i s) = Some ds"
  unfolding score_in_def score_at_iff by blast

lemma score_match_first_aux:
  assumes "i \<le> length s" and "score_at (drop i s) = Some ds"
    and "\<forall>j < i. score_at (drop j s) = None"
  shows "score_match s = Some ds"
  using assms
proof (induction s arbitrary: i)
  case Nil
  then show ?case by simp
next
  case (Cons c s)
  show ?case
  proof (cases i)
    case 0
    then show ?thesis using Cons.prems(2) by simp
  next
    case (Suc k)
    then have "score_at (drop 0 (c # s)) = None" using Cons.prems(3) by blast
    then have miss: "score_at (c # s) = None" by simp
    have "\<forall>j < k. score_at (drop j s) = None"
    proof (intro allI impI)
      fix j assume "j < k"
      then have "Suc j < i" using Suc by simp
      then have "score_at (drop (Suc j) (c # s)) = None" using Cons.prems(3) by blast
      then show "score_at (drop j s) = None" by simp
    qed
    then have "score_match s = Some ds"
      using Cons.prems(1,2) Suc by (intro Cons.IH [of k]) simp_all
    then show ?thesis using miss by simp
  qed
qed

lemma score_match_first: "first_score s i ds \<Longrightarrow> score_match s = Some ds"
proof -
  assume h: "first_score s i ds"
  then have a: "i \<le> length s" "score_at (drop i s) = Some ds"
    by (simp_all add: first_score_def score_in_iff)
  have "\<forall>j < i. score_at (drop j s) = None"
  proof (intro allI impI)
    fix j assume j: "j < i"
    then have "\<forall>ds'. \<not> score_in s j ds'" using h by (simp add: first_score_def)
    moreover have "j \<le> length s" using j a(1) by simp
    ultimately show "score_at (drop j s) = None"
      by (cases "score_at (drop j s)") (simp_all add: score_in_iff)
  qed
  then show ?thesis using a by (intro score_match_first_aux)
qed

lemma score_match_none_aux:
  assumes "\<forall>j \<le> length s. score_at (drop j s) = None"
  shows "score_match s = None"
  using assms
proof (induction s)
  case Nil
  then show ?case by simp
next
  case (Cons c s)
  have "score_at (drop 0 (c # s)) = None" using Cons.prems by blast
  then have miss: "score_at (c # s) = None" by simp
  have "\<forall>j \<le> length s. score_at (drop j s) = None"
  proof (intro allI impI)
    fix j assume "j \<le> length s"
    then have "Suc j \<le> length (c # s)" by simp
    then have "score_at (drop (Suc j) (c # s)) = None" using Cons.prems by blast
    then show "score_at (drop j s) = None" by simp
  qed
  then show ?case using miss Cons.IH by simp
qed

lemma score_match_none: "\<not> (\<exists>i ds. score_in s i ds) \<Longrightarrow> score_match s = None"
proof -
  assume h: "\<not> (\<exists>i ds. score_in s i ds)"
  have "\<forall>j \<le> length s. score_at (drop j s) = None"
  proof (intro allI impI)
    fix j assume "j \<le> length s"
    then show "score_at (drop j s) = None"
      using h by (cases "score_at (drop j s)") (auto simp add: score_in_iff)
  qed
  then show ?thesis by (rule score_match_none_aux)
qed


lemma first_score_exists: "\<exists>i ds. score_in s i ds \<Longrightarrow> \<exists>i ds. first_score s i ds"
  unfolding first_score_def by (rule first_exists)

lemma score_match_None_iff: "score_match s = None \<longleftrightarrow> \<not> (\<exists>i ds. score_in s i ds)"
proof
  assume n: "score_match s = None"
  show "\<not> (\<exists>i ds. score_in s i ds)"
  proof
    assume "\<exists>i ds. score_in s i ds"
    then obtain i ds where "first_score s i ds" using first_score_exists by blast
    then have "score_match s = Some ds" by (rule score_match_first)
    then show False using n by simp
  qed
next
  assume "\<not> (\<exists>i ds. score_in s i ds)"
  then show "score_match s = None" by (rule score_match_none)
qed

lemma first_scoreI:
  assumes "i \<le> length s" and "score_at (drop i s) = Some ds"
    and "list_all (\<lambda>j. score_at (drop j s) = None) [0..<i]"
  shows "first_score s i ds"
  using assms by (auto simp add: first_score_def score_in_iff list_all_iff)

lemma gradeCriterion_unfold:
  "gradeCriterion e answer c m subj w =
     (case read_score m (api_outcome e (api_calls w)) of
        Inr grade \<Rightarrow> grade
      | Inl err \<Rightarrow>
          \<lparr>Grade.score = Math_floor (js_mul m (to_double (7 / 10))),
           feedback = lit ''Unable to perform AI grading: '' @ message_text err @
                      lit ''. Please review manually.''\<rparr>,
      w\<lparr>api_calls := Suc (api_calls w)\<rparr>)"
  by (simp add: gradeCriterion_def callAIAPIWithFile_def)

text \<open>
  The fallback score against the exact \<open>70%\<close>: for a maximal score that is an integer
  from 0 to \<open>2\<^sup>4\<^sup>8\<close> it is \<open>7 * maxScore div 10\<close>, except that for a multiple of 10, where
  the double \<open>maxScore * 0.7\<close> can fall just below the integer, it can be one less.
\<close>

lemma double_7_10: "to_double (7 / 10) = Num (6305039478318694 / 2 ^ 53)"
  by code_simp

lemma fallback_score_exact:
  assumes "0 \<le> n" and "n \<le> 2 ^ 48"
  shows "\<exists>t. Math_floor (js_mul (Num (of_int n)) (to_double (7 / 10))) = Num (of_int t) \<and>
             (t = 7 * n div 10 \<or> t = 7 * n div 10 - 1 \<and> 10 dvd n)"
proof (cases "n = 0")
  case True
  have "Math_floor (js_mul (Num (of_int n)) (to_double (7 / 10))) = Num (of_int 0)"
    unfolding double_7_10 using True by (simp add: to_double_def)
  moreover have "7 * n div 10 = 0" using True by simp
  ultimately show ?thesis by metis
next
  case False
  define d :: rat where "d = 6305039478318694 / 2 ^ 53"
  define x :: rat where "x = of_int n * d"
  define eps :: rat where "eps = 1 / 20"
  have npos: "(0::rat) < of_int n" using False assms(1) by simp
  have nle: "(of_int n :: rat) \<le> 2 ^ 48"
  proof -
    have "(of_int n :: rat) \<le> of_int (2 ^ 48)" using assms(2) by (simp only: of_int_le_iff)
    then show ?thesis by simp
  qed
  have d0: "0 < d" and d1: "d < 1" by (simp_all add: d_def)
  have xpos: "0 < x" using npos d0 by (simp add: x_def)
  have "x < of_int n" using npos d1 by (simp add: x_def)
  then have "x < 2 ^ 49" using nle by simp
  then have x49: "x < 2 powi 49" by simp
  obtain r where r: "pos_double x = Num r" "\<bar>r - x\<bar> \<le> 2 powi (49 - 54)"
    using pos_double_near [OF xpos x49] by auto
  have r32: "\<bar>r - x\<bar> \<le> 1 / 32" using r(2) by simp
  have "7 / 10 - d = 1 / (5 * 2 ^ 52)" by (simp add: d_def)
  then have "of_int n * (7 / 10) - x = of_int n * (1 / (5 * 2 ^ 52))"
    by (simp add: x_def algebra_simps)
  also have "\<dots> \<le> 2 ^ 48 * (1 / (5 * 2 ^ 52))"
    using nle by (intro mult_right_mono) simp_all
  also have "\<dots> = 1 / 80" by simp
  finally have x80: "of_int n * (7 / 10) - x \<le> 1 / 80" .
  have xlow: "0 \<le> of_int n * (7 / 10) - x"
    using npos d0 by (simp add: x_def d_def)
  have "of_int (7 * n) / (10::rat) = of_int n * (7 / 10)" by simp
  then have near: "\<bar>r - of_int (7 * n) / 10\<bar> < eps"
    using r32 x80 xlow unfolding eps_def by linarith
  have val: "Math_floor (js_mul (Num (of_int n)) (to_double (7 / 10))) = Num (of_int \<lfloor>r\<rfloor>)"
    unfolding double_7_10 using xpos r(1) by (simp add: to_double_def x_def d_def)
  define K where "K = 7 * n div 10"
  define f where "f = 7 * n mod 10"
  have split: "7 * n = 10 * K + f" by (simp add: K_def f_def)
  have f0: "0 \<le> f" and f10: "f < 10" by (simp_all add: f_def)
  have Y: "of_int (7 * n) / (10::rat) = of_int K + of_int f / 10"
    by (simp add: split)
  show ?thesis
  proof (cases "f = 0")
    case True
    then have "10 dvd 7 * n" using split by simp
    then have dv: "10 dvd n" by presburger
    have "\<bar>r - of_int K\<bar> < eps" using near Y True by simp
    moreover have "eps \<le> 1" by (simp add: eps_def)
    ultimately have "\<lfloor>r\<rfloor> = K \<or> \<lfloor>r\<rfloor> = K - 1" by (rule floor_near_int)
    then show ?thesis using val dv by (auto simp add: K_def)
  next
    case False
    then have "1 \<le> f" "f \<le> 9" using f0 f10 by simp_all
    then have "(1::rat) \<le> of_int f" "(of_int f :: rat) \<le> 9"
      by simp_all
    then have a: "eps \<le> of_int f / 10" and b: "of_int f / 10 \<le> 1 - eps"
      by (simp_all add: eps_def)
    have "\<bar>r - (of_int K + of_int f / 10)\<bar> < eps" using near by (simp only: Y)
    then have "\<lfloor>r\<rfloor> = K" using a b by (rule floor_near_inner)
    then show ?thesis using val by (auto simp add: K_def)
  qed
qed

text \<open>
  Claim C2. \<open>gradeCriterion\<close> always returns a grade, after exactly one request to the
  service (there is no second attempt). When the request throws, when the answer holds
  no score, and when the first score in the answer is \<open>NaN\<close>, negative or above
  \<open>maxScore\<close>, the grade is the fallback: the score \<open>Math.floor(maxScore * 0.7)\<close>, computed
  on doubles as JavaScript does, and a feedback that carries the message of the error.
  Otherwise the grade is the first score in the answer, with the whole answer as
  feedback. An answer that holds a score has a first one, so the cases cover every
  outcome of the request.
\<close>

theorem gradeCriterion_outcomes:
  "snd (gradeCriterion e answer c m subj w) = w\<lparr>api_calls := Suc (api_calls w)\<rparr> \<and>
   (\<forall>err. api_outcome e (api_calls w) = Inl err \<longrightarrow>
      fst (gradeCriterion e answer c m subj w) =
        \<lparr>Grade.score = Math_floor (js_mul m (to_double (7 / 10))),
         feedback = lit ''Unable to perform AI grading: '' @ message_text err @
                    lit ''. Please review manually.''\<rparr>) \<and>
   (\<forall>response. api_outcome e (api_calls w) = Inr response \<and>
        \<not> (\<exists>i ds. score_in response i ds) \<longrightarrow>
      fst (gradeCriterion e answer c m subj w) =
        \<lparr>Grade.score = Math_floor (js_mul m (to_double (7 / 10))),
         feedback = lit ''Unable to perform AI grading: '' @
                    lit ''AI response did not contain a valid score'' @
                    lit ''. Please review manually.''\<rparr>) \<and>
   (\<forall>response i ds. api_outcome e (api_calls w) = Inr response \<and> first_score response i ds \<and>
        (isNaN (parseInt ds) \<or> js_lt (parseInt ds) (Num 0) \<or> js_gt (parseInt ds) m) \<longrightarrow>
      fst (gradeCriterion e answer c m subj w) =
        \<lparr>Grade.score = Math_floor (js_mul m (to_double (7 / 10))),
         feedback = lit ''Unable to perform AI grading: '' @
                    lit ''AI response contained an invalid score'' @
                    lit ''. Please review manually.''\<rparr>) \<and>
   (\<forall>response i ds. api_outcome e (api_calls w) = Inr response \<and> first_score response i ds \<and>
        \<not> (isNaN (parseInt ds) \<or> js_lt (parseInt ds) (Num 0) \<or> js_gt (parseInt ds) m) \<longrightarrow>
      fst (gradeCriterion e answer c m subj w) =
        \<lparr>Grade.score = parseInt ds, feedback = response\<rparr>) \<and>
   (\<forall>response. (\<exists>i ds. score_in response i ds) \<longrightarrow> (\<exists>i ds. first_score response i ds))"
proof -
  have a: "snd (gradeCriterion e answer c m subj w) = w\<lparr>api_calls := Suc (api_calls w)\<rparr>"
    by (simp add: gradeCriterion_unfold)
  have b: "fst (gradeCriterion e answer c m subj w) =
        \<lparr>Grade.score = Math_floor (js_mul m (to_double (7 / 10))),
         feedback = lit ''Unable to perform AI grading: '' @ message_text err @
                    lit ''. Please review manually.''\<rparr>"
    if "api_outcome e (api_calls w) = Inl err" for err
    using that by (simp add: gradeCriterion_unfold read_score_def)
  have c: "fst (gradeCriterion e answer c m subj w) =
        \<lparr>Grade.score = Math_floor (js_mul m (to_double (7 / 10))),
         feedback = lit ''Unable to perform AI grading: '' @
                    lit ''AI response did not contain a valid score'' @
                    lit ''. Please review manually.''\<rparr>"
    if "api_outcome e (api_calls w) = Inr response" "\<not> (\<exists>i ds. score_in response i ds)"
    for response
  proof -
    have "score_match response = None" using that(2) by (rule score_match_none)
    then show ?thesis using that(1) by (simp add: gradeCriterion_unfold read_score_def)
  qed
  have d: "fst (gradeCriterion e answer c m subj w) =
        \<lparr>Grade.score = Math_floor (js_mul m (to_double (7 / 10))),
         feedback = lit ''Unable to perform AI grading: '' @
                    lit ''AI response contained an invalid score'' @
                    lit ''. Please review manually.''\<rparr>"
    if "api_outcome e (api_calls w) = Inr response" "first_score response i ds"
      "isNaN (parseInt ds) \<or> js_lt (parseInt ds) (Num 0) \<or> js_gt (parseInt ds) m"
    for response i ds
  proof -
    have "score_match response = Some ds" using that(2) by (rule score_match_first)
    then show ?thesis
      using that(1,3) by (simp add: gradeCriterion_unfold read_score_def Let_def)
  qed
  have e: "fst (gradeCriterion e answer c m subj w) =
        \<lparr>Grade.score = parseInt ds, feedback = response\<rparr>"
    if "api_outcome e (api_calls w) = Inr response" "first_score response i ds"
      "\<not> (isNaN (parseInt ds) \<or> js_lt (parseInt ds) (Num 0) \<or> js_gt (parseInt ds) m)"
    for response i ds
  proof -
    have "score_match response = Some ds" using that(2) by (rule score_match_first)
    then show ?thesis
      using that(1,3) by (simp add: gradeCriterion_unfold read_score_def Let_def)
  qed
  have f: "\<forall>response. (\<exists>i ds. score_in response i ds) \<longrightarrow>
      (\<exists>i ds. first_score response i ds)"
    using first_score_exists by blast
  show ?thesis using a b c d e f by blast
qed

text \<open>
  The four cases in the example session: a failed request with a maximal score of 90
  (the fallback is 62, the double \<open>90 * 0.7\<close> being just below 63), an answer without a
  score, a score of 23 above the maximum of 10, and a score of 23 within the maximum
  of 40.
\<close>

theorem gradeCriterion_outcomes_witness:
  "api_outcome classroom (api_calls (start\<lparr>api_calls := 1\<rparr>)) =
     Inl (Thrown (Some (lit ''Failed to fetch''))) \<and>
   gradeCriterion classroom essay (lit ''Ideas'') (Num 90) [] (start\<lparr>api_calls := 1\<rparr>) =
     (\<lparr>Grade.score = Num 62,
       feedback = lit ''Unable to perform AI grading: Failed to fetch. Please review manually.''\<rparr>,
      start\<lparr>api_calls := 2\<rparr>) \<and>
   api_outcome classroom (api_calls (start\<lparr>api_calls := 2\<rparr>)) = Inr (lit ''Well argued.'') \<and>
   \<not> (\<exists>i ds. score_in (lit ''Well argued.'') i ds) \<and>
   fst (gradeCriterion classroom essay (lit ''Ideas'') (Num 40) [] (start\<lparr>api_calls := 2\<rparr>)) =
     \<lparr>Grade.score = Num 28,
      feedback = lit ''Unable to perform AI grading: AI response did not contain a valid score. Please review manually.''\<rparr> \<and>
   api_outcome classroom (api_calls start) = Inr (lit ''SCORE: 23'') \<and>
   first_score (lit ''SCORE: 23'') 0 (lit ''23'') \<and>
   js_gt (parseInt (lit ''23'')) (Num 10) \<and>
   fst (gradeCriterion classroom essay (lit ''Ideas'') (Num 10) [] start) =
     \<lparr>Grade.score = Num 7,
      feedback = lit ''Unable to perform AI grading: AI response contained an invalid score. Please review manually.''\<rparr> \<and>
   \<not> (isNaN (parseInt (lit ''23'')) \<or> js_lt (parseInt (lit ''23'')) (Num 0) \<or>
      js_gt (parseInt (lit ''23'')) (Num 40)) \<and>
   fst (gradeCriterion classroom essay (lit ''Ideas'') (Num 40) [] start) =
     \<lparr>Grade.score = Num 23, feedback = lit ''SCORE: 23''\<rparr>"
proof -
  have o1: "api_outcome classroom (api_calls (start\<lparr>api_calls := 1\<rparr>)) =
      Inl (Thrown (Some (lit ''Failed to fetch'')))"
    by (simp add: classroom_def start_def)
  have o2: "api_outcome classroom (api_calls (start\<lparr>api_calls := 2\<rparr>)) = Inr (lit ''Well argued.'')"
    by (simp add: classroom_def start_def)
  have o0: "api_outcome classroom (api_calls start) = Inr (lit ''SCORE: 23'')"
    by (simp add: classroom_def start_def)
  have "score_match (lit ''Well argued.'') = None" by code_simp
  then have none: "\<not> (\<exists>i ds. score_in (lit ''Well argued.'') i ds)"
    using score_match_None_iff by blast
  have first: "first_score (lit ''SCORE: 23'') 0 (lit ''23'')"
    by (rule first_scoreI) (simp, code_simp, simp)
  have p: "parseInt (lit ''23'') = Num 23" by code_simp
  have gt: "js_gt (parseInt (lit ''23'')) (Num 10)" by (simp add: p js_gt_def)
  have ok: "\<not> (isNaN (parseInt (lit ''23'')) \<or> js_lt (parseInt (lit ''23'')) (Num 0) \<or>
      js_gt (parseInt (lit ''23'')) (Num 40))"
    by (simp add: p js_gt_def isNaN_def)
  have f90: "Math_floor (js_mul (Num 90) (to_double (7 / 10))) = Num 62" by code_simp
  have f40: "Math_floor (js_mul (Num 40) (to_double (7 / 10))) = Num 28" by code_simp
  have f10: "Math_floor (js_mul (Num 10) (to_double (7 / 10))) = Num 7" by code_simp
  note t1 = gradeCriterion_outcomes [of classroom essay "lit ''Ideas''" "Num 90" "[]"
      "start\<lparr>api_calls := 1\<rparr>"]
  note t2 = gradeCriterion_outcomes [of classroom essay "lit ''Ideas''" "Num 40" "[]"
      "start\<lparr>api_calls := 2\<rparr>"]
  note t3 = gradeCriterion_outcomes [of classroom essay "lit ''Ideas''" "Num 10" "[]" start]
  note t4 = gradeCriterion_outcomes [of classroom essay "lit ''Ideas''" "Num 40" "[]" start]
  have r1: "gradeCriterion classroom essay (lit ''Ideas'') (Num 90) [] (start\<lparr>api_calls := 1\<rparr>) =
     (\<lparr>Grade.score = Num 62,
       feedback = lit ''Unable to perform AI grading: Failed to fetch. Please review manually.''\<rparr>,
      start\<lparr>api_calls := 2\<rparr>)"
    using t1 [THEN conjunct1] t1 [THEN conjunct2, THEN conjunct1, rule_format, OF o1] f90
    by (simp add: prod_eq_iff start_def lit_def)
  have r2: "fst (gradeCriterion classroom essay (lit ''Ideas'') (Num 40) [] (start\<lparr>api_calls := 2\<rparr>)) =
     \<lparr>Grade.score = Num 28,
      feedback = lit ''Unable to perform AI grading: AI response did not contain a valid score. Please review manually.''\<rparr>"
    using t2 [THEN conjunct2, THEN conjunct2, THEN conjunct1, rule_format, OF conjI [OF o2 none]] f40
    by (simp add: lit_def)
  have r3: "fst (gradeCriterion classroom essay (lit ''Ideas'') (Num 10) [] start) =
     \<lparr>Grade.score = Num 7,
      feedback = lit ''Unable to perform AI grading: AI response contained an invalid score. Please review manually.''\<rparr>"
    using t3 [THEN conjunct2, THEN conjunct2, THEN conjunct2, THEN conjunct1, rule_format,
        OF conjI [OF o0 conjI [OF first disjI2 [OF disjI2 [OF gt]]]]] f10
    by (simp add: lit_def)
  have r4: "fst (gradeCriterion classroom essay (lit ''Ideas'') (Num 40) [] start) =
     \<lparr>Grade.score = Num 23, feedback = lit ''SCORE: 23''\<rparr>"
    using t4 [THEN conjunct2, THEN conjunct2, THEN conjunct2, THEN conjunct2, THEN conjunct1,
        rule_format, OF conjI [OF o0 conjI [OF first ok]]] p
    by simp
  show ?thesis using o1 o2 o0 none first gt ok r1 r2 r3 r4 by blast
qed


section \<open>Properties of the grading of the files\<close>

text \<open>How the world moves on, and what the results are made of.\<close>

lemma gradeCriterion_world:
  "snd (gradeCriterion e f c m s w) = w\<lparr>api_calls := Suc (api_calls w)\<rparr>"
  by (simp add: gradeCriterion_def callAIAPIWithFile_def)

lemma grade_criteria_world:
  "snd (grade_criteria e f crits w) = w\<lparr>api_calls := api_calls w + length crits\<rparr>"
proof (induction crits arbitrary: w)
  case Nil
  then show ?case by simp
next
  case (Cons c crits)
  obtain g w1 where g: "gradeCriterion e f (Criterion.name c) (weight c) [] w = (g, w1)"
    by (cases "gradeCriterion e f (Criterion.name c) (weight c) [] w")
  then have w1: "w1 = w\<lparr>api_calls := Suc (api_calls w)\<rparr>"
    using gradeCriterion_world [of e f "Criterion.name c" "weight c" "[]" w] by simp
  obtain rs w2 where r: "grade_criteria e f crits w1 = (rs, w2)"
    by (cases "grade_criteria e f crits w1")
  then have "w2 = w1\<lparr>api_calls := api_calls w1 + length crits\<rparr>"
    using Cons.IH [of w1] by simp
  then show ?case using g r w1 by simp
qed

lemma grade_criteria_names:
  "map CriterionResult.name (fst (grade_criteria e f crits w)) = map Criterion.name crits \<and>
   map maxScore (fst (grade_criteria e f crits w)) = map weight crits"
proof (induction crits arbitrary: w)
  case Nil
  then show ?case by simp
next
  case (Cons c crits)
  obtain g w1 where g: "gradeCriterion e f (Criterion.name c) (weight c) [] w = (g, w1)"
    by (cases "gradeCriterion e f (Criterion.name c) (weight c) [] w")
  obtain rs w2 where r: "grade_criteria e f crits w1 = (rs, w2)"
    by (cases "grade_criteria e f crits w1")
  show ?case using g r Cons.IH [of w1] by simp
qed

lemma grade_file_world:
  "snd (grade_file e crits f w) =
     w\<lparr>api_calls := api_calls w + length crits, clock_reads := Suc (clock_reads w),
       random_draws := Suc (random_draws w)\<rparr>"
proof -
  obtain rs w1 where r: "grade_criteria e f crits w = (rs, w1)"
    by (cases "grade_criteria e f crits w")
  then have "w1 = w\<lparr>api_calls := api_calls w + length crits\<rparr>"
    using grade_criteria_world [of e f crits w] by simp
  then show ?thesis using r by (simp add: grade_file_def Let_def)
qed

lemma grade_file_result:
  "fst (grade_file e crits f w) =
     \<lparr>id' = lit ''student-'' @ int_to_string (date_now e (clock_reads w)) @ lit ''-'' @
             substr (random_string e (random_draws w)) 2 9,
      name = remove_extension (File.name f),
      score = total_score (fst (grade_criteria e f crits w)),
      feedback = overall_feedback (total_score (fst (grade_criteria e f crits w))),
      criteria = fst (grade_criteria e f crits w)\<rparr>"
proof -
  obtain rs w1 where r: "grade_criteria e f crits w = (rs, w1)"
    by (cases "grade_criteria e f crits w")
  then have "w1 = w\<lparr>api_calls := api_calls w + length crits\<rparr>"
    using grade_criteria_world [of e f crits w] by simp
  then show ?thesis using r by (simp add: grade_file_def Let_def)
qed

text \<open>
  The loop returns as many results as there are files, the \<open>i\<close>-th being the one of the
  \<open>i\<close>-th file in the world the loop has reached after \<open>i\<close> files.
\<close>

lemma grade_files_length: "length (fst (grade_files e crits files w)) = length files"
proof (induction files arbitrary: w)
  case Nil
  then show ?case by simp
next
  case (Cons f files)
  obtain r w1 where g: "grade_file e crits f w = (r, w1)"
    by (cases "grade_file e crits f w")
  obtain rs w2 where r: "grade_files e crits files w1 = (rs, w2)"
    by (cases "grade_files e crits files w1")
  show ?case using g r Cons.IH [of w1] by simp
qed

lemma grade_files_nth:
  "i < length files \<Longrightarrow>
   fst (grade_files e crits files w) ! i =
     fst (grade_file e crits (files ! i)
            (w\<lparr>api_calls := api_calls w + i * length crits, clock_reads := clock_reads w + i,
               random_draws := random_draws w + i\<rparr>))"
proof (induction files arbitrary: w i)
  case Nil
  then show ?case by simp
next
  case (Cons f files)
  obtain r w1 where g: "grade_file e crits f w = (r, w1)"
    by (cases "grade_file e crits f w")
  then have w1: "w1 = w\<lparr>api_calls := api_calls w + length crits, clock_reads := Suc (clock_reads w),
       random_draws := Suc (random_draws w)\<rparr>"
    using grade_file_world [of e crits f w] by simp
  obtain rs w2 where r: "grade_files e crits files w1 = (rs, w2)"
    by (cases "grade_files e crits files w1")
  show ?case
  proof (cases i)
    case 0
    then show ?thesis using g r by simp
  next
    case (Suc j)
    then have "j < length files" using Cons.prems by simp
    from Cons.IH [OF this, of w1] show ?thesis
      using g r Suc w1 by (simp add: add.commute add.left_commute)
  qed
qed

lemma remove_extension_strips:
  assumes "ext \<noteq> []" and "\<forall>c \<in> set ext. c \<noteq> 0x2E \<and> c \<noteq> 0x2F"
  shows "remove_extension (base @ [0x2E] @ ext) = base"
  using assms
proof (induction base)
  case Nil
  then show ?case by (simp add: list_all_iff)
next
  case (Cons c base)
  have "\<not> list_all (\<lambda>x. x \<noteq> 0x2F \<and> x \<noteq> 0x2E) (base @ [0x2E] @ ext)"
    by (simp add: list_all_iff)
  then show ?case using Cons by simp
qed

lemma remove_extension_cases:
  "remove_extension s = s \<or>
   (\<exists>base ext. s = base @ [0x2E] @ ext \<and> ext \<noteq> [] \<and> (\<forall>c \<in> set ext. c \<noteq> 0x2E \<and> c \<noteq> 0x2F))"
proof (induction s)
  case Nil
  then show ?case by simp
next
  case (Cons c s)
  show ?case
  proof (cases "c = 0x2E \<and> s \<noteq> [] \<and> list_all (\<lambda>x. x \<noteq> 0x2F \<and> x \<noteq> 0x2E) s")
    case True
    then have "c # s = [] @ [0x2E] @ s \<and> s \<noteq> [] \<and> (\<forall>c \<in> set s. c \<noteq> 0x2E \<and> c \<noteq> 0x2F)"
      by (auto simp add: list_all_iff)
    then show ?thesis by blast
  next
    case False
    from Cons.IH show ?thesis
    proof
      assume "remove_extension s = s"
      then show ?thesis using False by auto
    next
      assume "\<exists>base ext. s = base @ [0x2E] @ ext \<and> ext \<noteq> [] \<and> (\<forall>c \<in> set ext. c \<noteq> 0x2E \<and> c \<noteq> 0x2F)"
      then obtain base ext where "s = base @ [0x2E] @ ext" "ext \<noteq> []" "\<forall>c \<in> set ext. c \<noteq> 0x2E \<and> c \<noteq> 0x2F"
        by blast
      then have "c # s = (c # base) @ [0x2E] @ ext \<and> ext \<noteq> [] \<and> (\<forall>c \<in> set ext. c \<noteq> 0x2E \<and> c \<noteq> 0x2F)"
        by simp
      then show ?thesis by blast
    qed
  qed
qed

lemma total_score_empty: "total_score [] = NaN"
  by (simp add: total_score_def)

lemma overall_feedback_NaN: "overall_feedback NaN = lit ''Requires extensive revision.''"
  by (simp add: overall_feedback_def js_ge_def)


lemma grade_files_in_set:
  assumes "r \<in> set (fst (grade_files e crits files w))"
  shows "\<exists>i < length files. r = fst (grade_file e crits (files ! i)
            (w\<lparr>api_calls := api_calls w + i * length crits, clock_reads := clock_reads w + i,
               random_draws := random_draws w + i\<rparr>))"
proof -
  from assms obtain i where i: "i < length (fst (grade_files e crits files w))"
    and r: "r = fst (grade_files e crits files w) ! i"
    by (metis in_set_conv_nth)
  then have "i < length files" by (simp add: grade_files_length)
  then show ?thesis using r grade_files_nth by blast
qed

text \<open>
  Claim C4. \<open>processStudentAnswers\<close> returns one result for each file, in the order of
  the files. The result at position \<open>i\<close> has the name of the \<open>i\<close>-th file without its last
  extension (a dot followed, up to the end, by one or more characters other than a dot
  and a slash; a name without such an ending is kept), the criteria in the order of
  the rubric's lines, and the id \<open>student-<Date.now()>-<nine characters of a random
  number in base 36>\<close>, which depends on the clock and the random numbers only, not on
  the file.
\<close>

theorem processStudentAnswers_results:
  "length (fst (processStudentAnswers e files rubricText w)) = length files \<and>
   (\<forall>i < length files.
      GradingResult.name (fst (processStudentAnswers e files rubricText w) ! i) =
        remove_extension (File.name (files ! i)) \<and>
      map CriterionResult.name (criteria (fst (processStudentAnswers e files rubricText w) ! i)) =
        map Criterion.name (parseRubric rubricText) \<and>
      id' (fst (processStudentAnswers e files rubricText w) ! i) =
        lit ''student-'' @ int_to_string (date_now e (clock_reads w + i)) @ lit ''-'' @
        substr (random_string e (random_draws w + i)) 2 9) \<and>
   (\<forall>base ext. ext \<noteq> [] \<and> (\<forall>c \<in> set ext. c \<noteq> 0x2E \<and> c \<noteq> 0x2F) \<longrightarrow>
      remove_extension (base @ [0x2E] @ ext) = base) \<and>
   (\<forall>s. \<not> (\<exists>base ext. s = base @ [0x2E] @ ext \<and> ext \<noteq> [] \<and>
               (\<forall>c \<in> set ext. c \<noteq> 0x2E \<and> c \<noteq> 0x2F)) \<longrightarrow>
      remove_extension s = s)"
proof -
  have a: "length (fst (processStudentAnswers e files rubricText w)) = length files"
    by (simp add: processStudentAnswers_def grade_files_length)
  have b: "GradingResult.name (fst (processStudentAnswers e files rubricText w) ! i) =
        remove_extension (File.name (files ! i)) \<and>
      map CriterionResult.name (criteria (fst (processStudentAnswers e files rubricText w) ! i)) =
        map Criterion.name (parseRubric rubricText) \<and>
      id' (fst (processStudentAnswers e files rubricText w) ! i) =
        lit ''student-'' @ int_to_string (date_now e (clock_reads w + i)) @ lit ''-'' @
        substr (random_string e (random_draws w + i)) 2 9"
    if "i < length files" for i
    using that
    by (simp add: processStudentAnswers_def grade_files_nth grade_file_result grade_criteria_names)
  have c: "\<forall>base ext. ext \<noteq> [] \<and> (\<forall>c \<in> set ext. c \<noteq> 0x2E \<and> c \<noteq> 0x2F) \<longrightarrow>
      remove_extension (base @ [0x2E] @ ext) = base"
    using remove_extension_strips by blast
  have d: "\<forall>s. \<not> (\<exists>base ext. s = base @ [0x2E] @ ext \<and> ext \<noteq> [] \<and>
               (\<forall>c \<in> set ext. c \<noteq> 0x2E \<and> c \<noteq> 0x2F)) \<longrightarrow>
      remove_extension s = s"
    using remove_extension_cases by blast
  show ?thesis using a b c d by blast
qed

text \<open>Two files and a rubric of two lines, in the example session.\<close>

theorem processStudentAnswers_results_witness:
  "(1::nat) < length [essay, readme] \<and>
   GradingResult.name (fst (processStudentAnswers classroom [essay, readme]
        (lit ''Ideas (40%)'' @ [0x0A] @ lit ''Style (60%)'') start) ! 1) = lit ''README'' \<and>
   GradingResult.name (fst (processStudentAnswers classroom [essay, readme]
        (lit ''Ideas (40%)'' @ [0x0A] @ lit ''Style (60%)'') start) ! 0) = lit ''somchai.essay'' \<and>
   map CriterionResult.name (criteria (fst (processStudentAnswers classroom [essay, readme]
        (lit ''Ideas (40%)'' @ [0x0A] @ lit ''Style (60%)'') start) ! 1)) =
     [lit ''Ideas'', lit ''Style''] \<and>
   id' (fst (processStudentAnswers classroom [essay, readme]
        (lit ''Ideas (40%)'' @ [0x0A] @ lit ''Style (60%)'') start) ! 1) =
     lit ''student-1730550000001-4fzyo82mv''"
proof -
  have h1: "(1::nat) < length [essay, readme]" and h0: "(0::nat) < length [essay, readme]"
    by simp_all
  have rubric: "map Criterion.name (parseRubric (lit ''Ideas (40%)'' @ [0x0A] @ lit ''Style (60%)'')) =
     [lit ''Ideas'', lit ''Style'']"
    by code_simp
  have n1: "remove_extension (File.name ([essay, readme] ! 1)) = lit ''README''"
    by code_simp
  have n0: "remove_extension (File.name ([essay, readme] ! 0)) = lit ''somchai.essay''"
    by code_simp
  have i1: "lit ''student-'' @ int_to_string (date_now classroom (clock_reads start + 1)) @ lit ''-'' @
        substr (random_string classroom (random_draws start + 1)) 2 9 =
        lit ''student-1730550000001-4fzyo82mv''"
    by code_simp
  note all = processStudentAnswers_results [of classroom "[essay, readme]"
        "lit ''Ideas (40%)'' @ [0x0A] @ lit ''Style (60%)''" start,
        THEN conjunct2, THEN conjunct1, rule_format]
  show ?thesis
    using all [OF h1] all [OF h0] h1 rubric n1 n0 i1 by simp
qed

text \<open>
  Claim C9. When \<open>parseRubric\<close> returns no criterion, there is still one result for
  each file; its criteria are empty, its score is \<open>Math.round(0 / 0 * 100)\<close>, which is
  \<open>NaN\<close>, and its feedback is the one of the lowest band, every comparison with \<open>NaN\<close>
  being false.
\<close>

theorem empty_rubric_scores_NaN:
  assumes "parseRubric rubricText = []"
  shows "length (fst (processStudentAnswers e files rubricText w)) = length files \<and>
         (\<forall>r \<in> set (fst (processStudentAnswers e files rubricText w)).
            criteria r = [] \<and>
            GradingResult.score r = Math_round (js_mul (js_div (Num 0) (Num 0)) (Num 100)) \<and>
            GradingResult.score r = NaN \<and>
            GradingResult.feedback r = lit ''Requires extensive revision.'')"
proof -
  have "criteria r = [] \<and>
        GradingResult.score r = Math_round (js_mul (js_div (Num 0) (Num 0)) (Num 100)) \<and>
        GradingResult.score r = NaN \<and>
        GradingResult.feedback r = lit ''Requires extensive revision.''"
    if "r \<in> set (fst (grade_files e [] files w))" for r
  proof -
    from grade_files_in_set [OF that] obtain i w' where
      "r = fst (grade_file e [] (files ! i) w')" by blast
    then show ?thesis
      by (simp add: grade_file_result total_score_empty overall_feedback_NaN)
  qed
  then show ?thesis
    using assms by (simp add: processStudentAnswers_def grade_files_length)
qed

text \<open>A rubric without a percentage, and two files.\<close>

theorem empty_rubric_scores_NaN_witness:
  "parseRubric (lit ''No marks'') = [] \<and>
   length (fst (processStudentAnswers classroom [essay, readme] (lit ''No marks'') start)) = 2 \<and>
   criteria (fst (processStudentAnswers classroom [essay, readme] (lit ''No marks'') start) ! 1) = [] \<and>
   GradingResult.score
     (fst (processStudentAnswers classroom [essay, readme] (lit ''No marks'') start) ! 1) = NaN \<and>
   GradingResult.feedback
     (fst (processStudentAnswers classroom [essay, readme] (lit ''No marks'') start) ! 1) =
     lit ''Requires extensive revision.''"
proof -
  have h: "parseRubric (lit ''No marks'') = []"
    by code_simp
  note t = empty_rubric_scores_NaN [OF h, of classroom "[essay, readme]" start]
  have len: "length (fst (processStudentAnswers classroom [essay, readme] (lit ''No marks'') start)) = 2"
    using t by simp
  then have "fst (processStudentAnswers classroom [essay, readme] (lit ''No marks'') start) ! 1
      \<in> set (fst (processStudentAnswers classroom [essay, readme] (lit ''No marks'') start))"
    by (intro nth_mem) simp
  then show ?thesis using h len t by blast
qed

lemma round_percent_exact:
  assumes "0 \<le> s" and "s \<le> m" and "0 < m" and "m \<le> 2 ^ 45"
  shows "\<exists>t. Math_round (js_mul (js_div (Num (of_int s)) (Num (of_int m))) (Num 100)) =
               Num (of_int t) \<and>
             (t = round (100 * of_int s / of_int m :: rat) \<or>
              t = round (100 * of_int s / of_int m :: rat) - 1 \<and>
              frac (100 * of_int s / of_int m :: rat) = 1 / 2)"
proof -
  define X :: rat where "X = 100 * of_int s / of_int m"
  have mpos: "(0::rat) < of_int m" using assms(3) by simp
  have "X + 1 / 2 = of_int (200 * s + m) / of_int (2 * m)"
    using mpos by (simp add: X_def field_simps)
  then have rnd: "round X = (200 * s + m) div (2 * m)"
    unfolding round_def by (simp only: floor_divide_of_int_eq)
  have half: "frac X = 1 / 2" if "2 * m dvd 200 * s + m"
  proof -
    from that obtain k where k: "200 * s + m = 2 * m * k" by (auto simp add: dvd_def)
    have "X + 1 / 2 = of_int (200 * s + m) / of_int (2 * m)"
      using mpos by (simp add: X_def field_simps)
    also have "\<dots> = of_int k" using mpos by (simp add: k)
    finally have "X - 1 / 2 = of_int (k - 1)" by simp
    then have "X - 1 / 2 \<in> \<int>" by (metis Ints_of_int)
    then show ?thesis using frac_unique_iff [of X "1 / 2"] by auto
  qed
  from round_percent [OF assms] obtain t where
    t: "Math_round (js_mul (js_div (Num (of_int s)) (Num (of_int m))) (Num 100)) = Num (of_int t)"
      "t = (200 * s + m) div (2 * m) \<or>
       t = (200 * s + m) div (2 * m) - 1 \<and> 2 * m dvd 200 * s + m"
    by blast
  from t(2) have "t = round X \<or> t = round X - 1 \<and> frac X = 1 / 2"
    using rnd half by auto
  then show ?thesis using t(1) unfolding X_def by blast
qed

lemma total_score_exact:
  assumes "map CriterionResult.score cs = map (\<lambda>a. Num (of_int a)) as"
    and "map maxScore cs = map (\<lambda>b. Num (of_int b)) bs"
    and "\<forall>a \<in> set as. 0 \<le> a" and "\<forall>b \<in> set bs. 0 \<le> b"
    and "sum_list as \<le> sum_list bs" and "0 < sum_list bs" and "sum_list bs \<le> 2 ^ 45"
  shows "\<exists>t. total_score cs = Num (of_int t) \<and>
           (t = round (100 * of_int (sum_list as) / of_int (sum_list bs) :: rat) \<or>
            t = round (100 * of_int (sum_list as) / of_int (sum_list bs) :: rat) - 1 \<and>
            frac (100 * of_int (sum_list as) / of_int (sum_list bs) :: rat) = 1 / 2)"
proof -
  have small: "(2::int) ^ 45 < 2 ^ 53" by simp
  have sa0: "0 \<le> sum_list as" using assms(3) by (simp add: sum_list_nonneg)
  have "0 + sum_list as < 2 ^ 53" "0 + sum_list bs < 2 ^ 53"
    using assms(5,7) small by simp_all
  then have
    "foldl (\<lambda>sum c. js_add sum (CriterionResult.score c)) (Num (of_int 0)) cs =
       Num (of_int (0 + sum_list as))"
    "foldl (\<lambda>sum c. js_add sum (maxScore c)) (Num (of_int 0)) cs =
       Num (of_int (0 + sum_list bs))"
    using assms(1-4) by (simp_all only: foldl_js_add_int order_refl)
  then have "total_score cs =
      Math_round (js_mul (js_div (Num (of_int (sum_list as))) (Num (of_int (sum_list bs)))) (Num 100))"
    by (simp add: total_score_def)
  then show ?thesis
    using round_percent_exact [OF sa0 assms(5,6,7)] by simp
qed

text \<open>
  Claim C3, as amended. The score of every result is
  \<open>Math.round(sum of the scores / sum of the maximal scores * 100)\<close> over its criteria,
  computed on doubles with the division first, and the maximal scores are the weights
  of the rubric. When the scores and the maximal scores are integers that are not
  negative, the scores sum to no more than the maximal scores, and these sum to more
  than 0 and at most \<open>2\<^sup>4\<^sup>5\<close>, the score is the percentage \<open>100 * scores / maximal scores\<close>
  rounded to the nearest integer, a half rounded up; only when the percentage lies
  exactly halfway between two integers can it be the lower of the two instead.
\<close>

theorem total_score_of_result:
  "\<forall>r \<in> set (fst (processStudentAnswers e files rubricText w)).
     GradingResult.score r =
       Math_round
         (js_mul
            (js_div
               (foldl (\<lambda>sum criterion. js_add sum (CriterionResult.score criterion)) (Num 0)
                  (criteria r))
               (foldl (\<lambda>sum criterion. js_add sum (maxScore criterion)) (Num 0) (criteria r)))
            (Num 100)) \<and>
     map maxScore (criteria r) = map weight (parseRubric rubricText) \<and>
     (\<forall>as bs.
        map CriterionResult.score (criteria r) = map (\<lambda>a. Num (of_int a)) as \<and>
        map maxScore (criteria r) = map (\<lambda>b. Num (of_int b)) bs \<and>
        (\<forall>a \<in> set as. 0 \<le> a) \<and> (\<forall>b \<in> set bs. 0 \<le> b) \<and>
        sum_list as \<le> sum_list bs \<and> 0 < sum_list bs \<and> sum_list bs \<le> 2 ^ 45 \<longrightarrow>
        (\<exists>t. GradingResult.score r = Num (of_int t) \<and>
           (t = round (100 * of_int (sum_list as) / of_int (sum_list bs) :: rat) \<or>
            t = round (100 * of_int (sum_list as) / of_int (sum_list bs) :: rat) - 1 \<and>
            frac (100 * of_int (sum_list as) / of_int (sum_list bs) :: rat) = 1 / 2)))"
proof
  fix r assume "r \<in> set (fst (processStudentAnswers e files rubricText w))"
  then obtain f w' where r: "r = fst (grade_file e (parseRubric rubricText) f w')"
    using grade_files_in_set by (simp add: processStudentAnswers_def) blast
  have s: "GradingResult.score r = total_score (criteria r)"
    and m: "map maxScore (criteria r) = map weight (parseRubric rubricText)"
    by (simp_all add: r grade_file_result grade_criteria_names)
  show "GradingResult.score r =
       Math_round
         (js_mul
            (js_div
               (foldl (\<lambda>sum criterion. js_add sum (CriterionResult.score criterion)) (Num 0)
                  (criteria r))
               (foldl (\<lambda>sum criterion. js_add sum (maxScore criterion)) (Num 0) (criteria r)))
            (Num 100)) \<and>
     map maxScore (criteria r) = map weight (parseRubric rubricText) \<and>
     (\<forall>as bs.
        map CriterionResult.score (criteria r) = map (\<lambda>a. Num (of_int a)) as \<and>
        map maxScore (criteria r) = map (\<lambda>b. Num (of_int b)) bs \<and>
        (\<forall>a \<in> set as. 0 \<le> a) \<and> (\<forall>b \<in> set bs. 0 \<le> b) \<and>
        sum_list as \<le> sum_list bs \<and> 0 < sum_list bs \<and> sum_list bs \<le> 2 ^ 45 \<longrightarrow>
        (\<exists>t. GradingResult.score r = Num (of_int t) \<and>
           (t = round (100 * of_int (sum_list as) / of_int (sum_list bs) :: rat) \<or>
            t = round (100 * of_int (sum_list as) / of_int (sum_list bs) :: rat) - 1 \<and>
            frac (100 * of_int (sum_list as) / of_int (sum_list bs) :: rat) = 1 / 2)))"
    using s m total_score_exact [of "criteria r"]
    by (simp add: total_score_def)
qed

text \<open>
  The claim as it was stated fails for 23 marks out of 40: the percentage is 57.5, which
  rounds to 58, and so does \<open>Math.round(100 * 23 / 40)\<close>; the result has 57, because the
  double \<open>23 / 40 * 100\<close> is just below 57.5.
\<close>

theorem total_score_of_result_counterexample:
  "map CriterionResult.score
     (criteria (hd (fst (processStudentAnswers classroom [essay] (lit ''Ideas (40%)'') start)))) =
     [Num 23] \<and>
   map maxScore
     (criteria (hd (fst (processStudentAnswers classroom [essay] (lit ''Ideas (40%)'') start)))) =
     [Num 40] \<and>
   GradingResult.score
     (hd (fst (processStudentAnswers classroom [essay] (lit ''Ideas (40%)'') start))) = Num 57 \<and>
   round (100 * 23 / 40 :: rat) = 58 \<and>
   Math_round (js_div (js_mul (Num 100) (Num 23)) (Num 40)) = Num 58"
  by code_simp

text \<open>The same run: 57 is one below the rounded percentage, which lies halfway.\<close>

theorem total_score_of_result_witness:
  "hd (fst (processStudentAnswers classroom [essay] (lit ''Ideas (40%)'') start))
     \<in> set (fst (processStudentAnswers classroom [essay] (lit ''Ideas (40%)'') start)) \<and>
   map CriterionResult.score
     (criteria (hd (fst (processStudentAnswers classroom [essay] (lit ''Ideas (40%)'') start)))) =
     map (\<lambda>a. Num (of_int a)) [23] \<and>
   map maxScore
     (criteria (hd (fst (processStudentAnswers classroom [essay] (lit ''Ideas (40%)'') start)))) =
     map (\<lambda>b. Num (of_int b)) [40] \<and>
   list_all (\<lambda>a. 0 \<le> a) [23 :: int] \<and> list_all (\<lambda>b. 0 \<le> b) [40 :: int] \<and>
   sum_list [23 :: int] \<le> sum_list [40] \<and> 0 < sum_list [40 :: int] \<and>
   sum_list [40 :: int] \<le> 2 ^ 45 \<and>
   (\<exists>t. GradingResult.score
          (hd (fst (processStudentAnswers classroom [essay] (lit ''Ideas (40%)'') start))) =
        Num (of_int t) \<and>
      (t = round (100 * of_int (sum_list [23]) / of_int (sum_list [40]) :: rat) \<or>
       t = round (100 * of_int (sum_list [23]) / of_int (sum_list [40]) :: rat) - 1 \<and>
       frac (100 * of_int (sum_list [23]) / of_int (sum_list [40]) :: rat) = 1 / 2))"
proof -
  have len: "length (fst (processStudentAnswers classroom [essay] (lit ''Ideas (40%)'') start)) = 1"
    by (simp only: processStudentAnswers_def grade_files_length) simp
  then have mem: "hd (fst (processStudentAnswers classroom [essay] (lit ''Ideas (40%)'') start))
     \<in> set (fst (processStudentAnswers classroom [essay] (lit ''Ideas (40%)'') start))"
    by (metis hd_in_set length_0_conv zero_neq_one)
  have s: "map CriterionResult.score
     (criteria (hd (fst (processStudentAnswers classroom [essay] (lit ''Ideas (40%)'') start)))) =
     map (\<lambda>a. Num (of_int a)) [23]"
    by code_simp
  have m: "map maxScore
     (criteria (hd (fst (processStudentAnswers classroom [essay] (lit ''Ideas (40%)'') start)))) =
     map (\<lambda>b. Num (of_int b)) [40]"
    by code_simp
  have rest: "(\<forall>a \<in> set [23 :: int]. 0 \<le> a) \<and> (\<forall>b \<in> set [40 :: int]. 0 \<le> b) \<and>
   sum_list [23 :: int] \<le> sum_list [40] \<and> 0 < sum_list [40 :: int] \<and>
   sum_list [40 :: int] \<le> 2 ^ 45"
    by simp
  note t = total_score_of_result [of classroom "[essay]" "lit ''Ideas (40%)''" start,
      rule_format, OF mem, THEN conjunct2, THEN conjunct2, rule_format,
      OF conjI [OF s conjI [OF m rest]]]
  show ?thesis using mem s m rest t by simp
qed


section \<open>Properties of the grading page\<close>

text \<open>
  Claim C5. When no subject is selected (\<open>subject\<close> is \<open>null\<close> or empty), or no student
  file is uploaded, or there is neither a rubric file nor the template option,
  \<open>handleSubmit\<close> shows one destructive toast, for the first of these checks that
  fails, and returns with the form as it was: it does not call \<open>setIsSubmitting\<close>, shows
  no \<open>Grading started\<close> toast and pushes no route. These happen only when the three
  checks pass, and then they do happen.
\<close>

theorem handleSubmit_validation:
  "(subject p = None \<or> subject p = Some [] \<longrightarrow>
      handleSubmit now navigation_fails p =
        ([PreventDefault,
          Toast (lit ''Subject required'') (lit ''Please select a subject for grading'')
            (Some (lit ''destructive''))], p)) \<and>
   (\<not> (subject p = None \<or> subject p = Some []) \<and> studentFiles p = [] \<longrightarrow>
      handleSubmit now navigation_fails p =
        ([PreventDefault,
          Toast (lit ''Student files required'')
            (lit ''Please upload at least one student answer file'')
            (Some (lit ''destructive''))], p)) \<and>
   (\<not> (subject p = None \<or> subject p = Some []) \<and> studentFiles p \<noteq> [] \<and>
    rubricFile p = None \<and> \<not> useTemplateRubric p \<longrightarrow>
      handleSubmit now navigation_fails p =
        ([PreventDefault,
          Toast (lit ''Rubric required'') (lit ''Please either upload a rubric or use a template'')
            (Some (lit ''destructive''))], p)) \<and>
   ((SetIsSubmitting True \<in> set (fst (handleSubmit now navigation_fails p)) \<or>
     Toast (lit ''Grading started'') (lit ''Your files have been uploaded and grading has begun'')
       None \<in> set (fst (handleSubmit now navigation_fails p)) \<or>
     (\<exists>route. RouterPush route \<in> set (fst (handleSubmit now navigation_fails p)))) \<longrightarrow>
    \<not> (subject p = None \<or> subject p = Some []) \<and> studentFiles p \<noteq> [] \<and>
    (rubricFile p \<noteq> None \<or> useTemplateRubric p)) \<and>
   (\<not> (subject p = None \<or> subject p = Some []) \<and> studentFiles p \<noteq> [] \<and>
    (rubricFile p \<noteq> None \<or> useTemplateRubric p) \<longrightarrow>
      SetIsSubmitting True \<in> set (fst (handleSubmit now navigation_fails p)) \<and>
      (\<not> navigation_fails \<longrightarrow>
         RouterPush (lit ''/grading/results/session-'' @ int_to_string now)
           \<in> set (fst (handleSubmit now navigation_fails p))))"
  by (auto simp add: handleSubmit_def lit_def)

text \<open>The form as it is when the page opens.\<close>

theorem handleSubmit_validation_witness:
  "(subject empty_form = None \<or> subject empty_form = Some []) \<and>
   handleSubmit 1730550000000 False empty_form =
     ([PreventDefault,
       Toast (lit ''Subject required'') (lit ''Please select a subject for grading'')
         (Some (lit ''destructive''))], empty_form)"
proof -
  have h: "subject empty_form = None \<or> subject empty_form = Some []"
    by (simp add: empty_form_def)
  show ?thesis
    using h handleSubmit_validation [of empty_form 1730550000000 False] by blast
qed

end
